theory Spec2Isabelle
  imports Main "HOL-Library.Word" "HOL-Library.AList"
begin

unbundle bit_operations_syntax

section \<open>Values\<close>

text \<open>
  The scripts work on what \<^verbatim>\<open>response.json()\<close> returns: trees of Python \<^verbatim>\<open>None\<close>,
  \<^verbatim>\<open>bool\<close>, \<^verbatim>\<open>int\<close>, \<^verbatim>\<open>float\<close>, \<^verbatim>\<open>str\<close>, \<^verbatim>\<open>list\<close> and \<^verbatim>\<open>dict\<close> with string keys.
  A float is kept as its IEEE-754 bit pattern. A \<^verbatim>\<open>dict\<close> is an association list in
  insertion order, read with \<^const>\<open>map_of\<close> and written with \<^const>\<open>AList.update\<close> (an
  existing key keeps its place, a new key goes to the end, as in Python).
  A \<^typ>\<open>char\<close> stands for one code point below 256; strings with other code points
  are outside the model. The interpreter is CPython with its defaults on a 64-bit build:
  an index must fit a signed 64-bit integer, and a conversion between \<^verbatim>\<open>int\<close> and \<^verbatim>\<open>str\<close>
  of more than 4300 decimal digits raises a \<^verbatim>\<open>ValueError\<close>. The depth of the interpreter's
  stack and the size of its memory are outside the model.
\<close>

datatype json =
    JNull
  | JBool bool
  | JInt int
  | JFloat "64 word"
  | JStr string
  | JArr "json list"
  | JObj "(string \<times> json) list"

datatype exn =
    KeyError string
  | IndexError string
  | TypeError string
  | AttributeError string
  | ValueError string

text \<open>\<^verbatim>\<open>type(v).__name__\<close>, as it appears in the interpreter's messages.\<close>

fun type_name :: "json \<Rightarrow> string" where
  "type_name JNull = ''NoneType''"
| "type_name (JBool _) = ''bool''"
| "type_name (JInt _) = ''int''"
| "type_name (JFloat _) = ''float''"
| "type_name (JStr _) = ''str''"
| "type_name (JArr _) = ''list''"
| "type_name (JObj _) = ''dict''"

fun is_dict :: "json \<Rightarrow> bool" where
  "is_dict (JObj _) = True"
| "is_dict _ = False"

text \<open>\<^verbatim>\<open>k in d\<close> for a dict \<open>d\<close>.\<close>

definition has_key :: "string \<Rightarrow> (string \<times> 'a) list \<Rightarrow> bool" where
  "has_key k d = (map_of d k \<noteq> None)"

text \<open>\<^verbatim>\<open>str(e)\<close> of an exception: a \<^verbatim>\<open>KeyError\<close> carries the \<^verbatim>\<open>repr\<close> of its key.\<close>

fun str_exn :: "exn \<Rightarrow> string" where
  "str_exn (KeyError m) = m"
| "str_exn (IndexError m) = m"
| "str_exn (TypeError m) = m"
| "str_exn (AttributeError m) = m"
| "str_exn (ValueError m) = m"

section \<open>Strings\<close>

text \<open>\<^verbatim>\<open>s.replace(c, '')\<close> and \<^verbatim>\<open>s.replace(c, d)\<close> for one-character \<open>c\<close>, \<open>d\<close>.\<close>

definition remove_char :: "char \<Rightarrow> string \<Rightarrow> string" where
  "remove_char c s = filter (\<lambda>x. x \<noteq> c) s"

definition replace_char :: "char \<Rightarrow> char \<Rightarrow> string \<Rightarrow> string" where
  "replace_char c d s = map (\<lambda>x. if x = c then d else x) s"

text \<open>\<^verbatim>\<open>s.split(c)\<close>: the pieces between the separators; never the empty list.\<close>

fun split_on :: "char \<Rightarrow> string \<Rightarrow> string list" where
  "split_on c [] = [[]]"
| "split_on c (x # xs) =
     (if x = c then [] # split_on c xs
      else (case split_on c xs of
              [] \<Rightarrow> [[x]]
            | p # ps \<Rightarrow> (x # p) # ps))"

text \<open>
  \<^verbatim>\<open>str.isdigit\<close> on the code points below 256: the ASCII digits and the superscripts
  \<open>U+00B2\<close>, \<open>U+00B3\<close>, \<open>U+00B9\<close>. The empty string is not a digit string.
\<close>

definition ascii_digit :: "char \<Rightarrow> bool" where
  "ascii_digit c = (48 \<le> (of_char c :: nat) \<and> (of_char c :: nat) \<le> 57)"

definition digit_char :: "char \<Rightarrow> bool" where
  "digit_char c = (ascii_digit c \<or> (of_char c :: nat) \<in> {178, 179, 185})"

definition isdigit :: "string \<Rightarrow> bool" where
  "isdigit s = (s \<noteq> [] \<and> list_all digit_char s)"

text \<open>The value of a string of ASCII digits, most significant digit first.\<close>

definition digits_value :: "string \<Rightarrow> nat" where
  "digits_value s = foldl (\<lambda>acc c. 10 * acc + (of_char c - 48)) 0 s"

definition apos :: char where
  "apos = CHR 0x27"

definition quoted :: "string \<Rightarrow> string" where
  "quoted s = apos # s @ [apos]"

text \<open>\<^verbatim>\<open>str(n)\<close> for a natural number.\<close>

fun digit_of :: "nat \<Rightarrow> char" where
  "digit_of n = char_of (48 + n mod 10)"

function str_nat :: "nat \<Rightarrow> string" where
  "str_nat n = (if n < 10 then [digit_of n] else str_nat (n div 10) @ [digit_of n])"
  by pat_completeness auto
termination
  by (relation "measure id") auto

text \<open>
  \<^verbatim>\<open>sys.get_int_max_str_digits()\<close>, and the least index that does not fit the index type,
  \<^verbatim>\<open>sys.maxsize + 1\<close>.
\<close>

definition max_str_digits :: nat where
  "max_str_digits = 4300"

definition index_limit :: nat where
  "index_limit = 2 ^ 63"

text \<open>
  \<^verbatim>\<open>int(part)\<close> where \<^verbatim>\<open>part.isdigit()\<close> holds. The conversion reads the ASCII digits at the
  front: more of them than the limit is a \<^verbatim>\<open>ValueError\<close>; otherwise anything left over, as
  a superscript digit is, makes the literal invalid, a \<^verbatim>\<open>ValueError\<close> too.
\<close>

definition py_int :: "string \<Rightarrow> exn + nat" where
  "py_int s =
     (let digits = takeWhile ascii_digit s in
      if max_str_digits < length digits then
        Inl (ValueError (''Exceeds the limit ('' @ str_nat max_str_digits
               @ '' digits) for integer string conversion: value has '' @ str_nat (length digits)
               @ '' digits; use sys.set_int_max_str_digits() to increase the limit''))
      else if digits = [] \<or> digits \<noteq> s then
        Inl (ValueError (''invalid literal for int() with base 10: '' @ quoted s))
      else Inr (digits_value s))"

section \<open>Path extraction\<close>

text \<open>
  \<^verbatim>\<open>debug_api.py\<close>, \<^verbatim>\<open>extract_content_path(data, path)\<close>:
  \<^verbatim>\<open>
    try:
        parts = path.replace(']', '').replace('[', '.').split('.')
        result = data
        for part in parts:
            if part.isdigit():
                result = result[int(part)]
            else:
                result = result.get(part)
                if result is None:
                    return None
        return result
    except (KeyError, IndexError, TypeError, AttributeError) as e:
        return f"Error accessing path: {e}"
  \<close>
\<close>

definition path_parts :: "string \<Rightarrow> string list" where
  "path_parts path = split_on CHR ''.'' (replace_char CHR ''['' CHR ''.'' (remove_char CHR '']'' path))"

text \<open>
  \<^verbatim>\<open>result[i]\<close> for a non-negative \<open>i\<close>. A list and a string convert the index to the
  index type first, which fails from \<^const>\<open>index_limit\<close> on; a dict looks the integer up as
  a key.
\<close>

definition index_error :: exn where
  "index_error = IndexError (''cannot fit '' @ quoted ''int'' @ '' into an index-sized integer'')"

fun subscript :: "json \<Rightarrow> nat \<Rightarrow> exn + json" where
  "subscript (JArr xs) i =
     (if index_limit \<le> i then Inl index_error
      else if i < length xs then Inr (xs ! i)
      else Inl (IndexError ''list index out of range''))"
| "subscript (JStr s) i =
     (if index_limit \<le> i then Inl index_error
      else if i < length s then Inr (JStr [s ! i])
      else Inl (IndexError ''string index out of range''))"
| "subscript (JObj d) i = Inl (KeyError (str_nat i))"
| "subscript v i = Inl (TypeError (quoted (type_name v) @ '' object is not subscriptable''))"

text \<open>\<^verbatim>\<open>result.get(part)\<close>: only a dict has the method.\<close>

fun py_get :: "json \<Rightarrow> string \<Rightarrow> exn + json" where
  "py_get (JObj d) k = Inr (case map_of d k of None \<Rightarrow> JNull | Some v \<Rightarrow> v)"
| "py_get v k =
     Inl (AttributeError (quoted (type_name v) @ '' object has no attribute '' @ quoted ''get''))"

text \<open>The \<^verbatim>\<open>for\<close> loop and the \<^verbatim>\<open>return\<close> after it.\<close>

fun walk :: "json \<Rightarrow> string list \<Rightarrow> exn + json" where
  "walk result [] = Inr result"
| "walk result (part # parts) =
     (if isdigit part then
        (case py_int part of
           Inl e \<Rightarrow> Inl e
         | Inr i \<Rightarrow>
             (case subscript result i of
                Inl e \<Rightarrow> Inl e
              | Inr r \<Rightarrow> walk r parts))
      else
        (case py_get result part of
           Inl e \<Rightarrow> Inl e
         | Inr r \<Rightarrow> if r = JNull then Inr JNull else walk r parts))"

text \<open>The exceptions the \<^verbatim>\<open>except\<close> clause names; a \<^verbatim>\<open>ValueError\<close> is none of them.\<close>

fun caught :: "exn \<Rightarrow> bool" where
  "caught (KeyError _) = True"
| "caught (IndexError _) = True"
| "caught (TypeError _) = True"
| "caught (AttributeError _) = True"
| "caught (ValueError _) = False"

text \<open>The result is \<open>Inr\<close> the returned value, or \<open>Inl\<close> the exception that propagates.\<close>

definition extract_content_path :: "json \<Rightarrow> string \<Rightarrow> exn + json" where
  "extract_content_path data path =
     (case walk data (path_parts path) of
        Inr v \<Rightarrow> Inr v
      | Inl e \<Rightarrow>
          if caught e then Inr (JStr (''Error accessing path: '' @ str_exn e))
          else Inl e)"

text \<open>
  \<^verbatim>\<open>response_format_analyzer.py\<close>, the extraction loop of \<^verbatim>\<open>phoenix_request_analysis\<close>:
  every failure, the \<^verbatim>\<open>ValueError\<close> of \<^verbatim>\<open>int\<close> included (\<^verbatim>\<open>except Exception\<close>), sets
  \<^verbatim>\<open>content = None\<close> and leaves the loop.
\<close>

fun analysis_walk :: "json \<Rightarrow> string list \<Rightarrow> json" where
  "analysis_walk content [] = content"
| "analysis_walk content (part # parts) =
     (if isdigit part then
        (case py_int part of
           Inl e \<Rightarrow> JNull
         | Inr idx \<Rightarrow>
             (case content of
                JArr xs \<Rightarrow> if idx < length xs then analysis_walk (xs ! idx) parts else JNull
              | _ \<Rightarrow> JNull))
      else
        (case content of
           JObj d \<Rightarrow>
             (case map_of d part of
                Some v \<Rightarrow> analysis_walk v parts
              | None \<Rightarrow> JNull)
         | _ \<Rightarrow> JNull))"

definition phoenix_request_analysis_extract :: "json \<Rightarrow> string \<Rightarrow> json" where
  "phoenix_request_analysis_extract response extract_path =
     analysis_walk response (path_parts extract_path)"

section \<open>The response transformer\<close>

text \<open>
  \<^verbatim>\<open>phoenix_response_fix.py\<close>, \<^verbatim>\<open>transform_response(response)\<close>, on values: the result is
  \<open>Inr\<close> the value the function returns, or \<open>Inl\<close> the exception that propagates.
\<close>

definition sentinel :: string where
  "sentinel = ''__phoenix_processed__''"

definition empty_content :: string where
  "empty_content = ''No content available''"

text \<open>\<^verbatim>\<open>bool(v)\<close>: both zeros of a float are false, a NaN is true.\<close>

fun truthy :: "json \<Rightarrow> bool" where
  "truthy JNull = False"
| "truthy (JBool b) = b"
| "truthy (JInt i) = (i \<noteq> 0)"
| "truthy (JFloat w) = (take_bit 63 w \<noteq> 0)"
| "truthy (JStr s) = (s \<noteq> [])"
| "truthy (JArr xs) = (xs \<noteq> [])"
| "truthy (JObj d) = (d \<noteq> [])"

text \<open>
  \<^verbatim>\<open>choice["message"]["content"]\<close> where
  \<^verbatim>\<open>"message" in choice and isinstance(choice["message"], dict) and "content" in choice["message"]\<close>
  holds, and \<open>None\<close> where it does not.
\<close>

definition message_content :: "(string \<times> json) list \<Rightarrow> json option" where
  "message_content choice =
     (case map_of choice ''message'' of
        Some (JObj message) \<Rightarrow> map_of message ''content''
      | _ \<Rightarrow> None)"

text \<open>
  The body of the loop, lines 68 to 101, on one element of \<^verbatim>\<open>choices\<close>: the element as
  the loop leaves it.
  \<^verbatim>\<open>
    if not isinstance(choice, dict):
        continue
    if "message" in choice and isinstance(choice["message"], dict) and "content" in choice["message"]:
        if "text" not in choice:
            choice["text"] = choice["message"]["content"]
    elif "text" in choice:
        if "message" not in choice or not isinstance(choice["message"], dict):
            choice["message"] = {"role": "assistant", "content": choice["text"]}
        elif "content" not in choice["message"]:
            choice["message"]["content"] = choice["text"]
    else:
        empty_content = "No content available"
        choice["text"] = empty_content
        choice["message"] = {"role": "assistant", "content": empty_content}
  \<close>
\<close>

fun fix_choice :: "json \<Rightarrow> json" where
  "fix_choice (JObj choice) =
     (case message_content choice of
        Some content \<Rightarrow>
          if \<not> has_key ''text'' choice
          then JObj (AList.update ''text'' content choice)
          else JObj choice
      | None \<Rightarrow>
          (case map_of choice ''text'' of
             Some text \<Rightarrow>
               (case map_of choice ''message'' of
                  Some (JObj message) \<Rightarrow>
                    if \<not> has_key ''content'' message
                    then JObj (AList.update ''message''
                                 (JObj (AList.update ''content'' text message)) choice)
                    else JObj choice
                | _ \<Rightarrow>
                    JObj (AList.update ''message''
                            (JObj [(''role'', JStr ''assistant''), (''content'', text)]) choice))
           | None \<Rightarrow>
               JObj (AList.update ''message''
                       (JObj [(''role'', JStr ''assistant''), (''content'', JStr empty_content)])
                       (AList.update ''text'' (JStr empty_content) choice))))"
| "fix_choice choice = choice"

text \<open>
  \<^verbatim>\<open>for i, choice in enumerate(transformed["choices"])\<close>: the value of
  \<^verbatim>\<open>transformed["choices"]\<close> after the loop. A list yields its elements; a dict yields
  its keys and a string its characters, which are strings and are skipped; anything
  else is not iterable.
\<close>

fun process_choices :: "json \<Rightarrow> exn + json" where
  "process_choices (JArr cs) = Inr (JArr (map fix_choice cs))"
| "process_choices (JObj d) = Inr (JObj d)"
| "process_choices (JStr s) = Inr (JStr s)"
| "process_choices v = Inl (TypeError (quoted (type_name v) @ '' object is not iterable''))"

text \<open>The \<^verbatim>\<open>try\<close> block, on the copy that carries the mark.\<close>

definition transform_body :: "(string \<times> json) list \<Rightarrow> exn + json" where
  "transform_body transformed =
     (case map_of transformed ''choices'' of
        None \<Rightarrow> Inr (JObj transformed)
      | Some choices \<Rightarrow>
          if \<not> truthy choices then Inr (JObj transformed)
          else
            (case process_choices choices of
               Inl e \<Rightarrow> Inl e
             | Inr choices' \<Rightarrow> Inr (JObj (AList.update ''choices'' choices' transformed))))"

text \<open>
  Line 52, before the \<^verbatim>\<open>try\<close>:
  \<^verbatim>\<open>logger.debug(f"Processing response: {json.dumps(response)[:200]}...")\<close>.
  The string is built whatever the logging level is. On a tree, \<^verbatim>\<open>json.dumps\<close> fails
  where it comes to write an \<^verbatim>\<open>int\<close> of more than \<^const>\<open>max_str_digits\<close> digits; it goes
  through the tree in order and the first failure is the exception raised.
\<close>

definition int_too_long :: "int \<Rightarrow> bool" where
  "int_too_long i = (10 ^ max_str_digits \<le> \<bar>i\<bar>)"

definition digits_limit_error :: exn where
  "digits_limit_error =
     ValueError (''Exceeds the limit ('' @ str_nat max_str_digits
       @ '' digits) for integer string conversion; use sys.set_int_max_str_digits() to increase the limit'')"

fun first_error :: "exn option list \<Rightarrow> exn option" where
  "first_error [] = None"
| "first_error (None # es) = first_error es"
| "first_error (Some e # es) = Some e"

fun dumps_error :: "json \<Rightarrow> exn option"
  and dumps_error_list :: "json list \<Rightarrow> exn option list"
  and dumps_error_entries :: "(string \<times> json) list \<Rightarrow> exn option list"
where
  "dumps_error (JInt i) = (if int_too_long i then Some digits_limit_error else None)"
| "dumps_error (JArr js) = first_error (dumps_error_list js)"
| "dumps_error (JObj d) = first_error (dumps_error_entries d)"
| "dumps_error _ = None"
| "dumps_error_list [] = []"
| "dumps_error_list (j # js) = dumps_error j # dumps_error_list js"
| "dumps_error_entries [] = []"
| "dumps_error_entries ((k, j) # d) = dumps_error j # dumps_error_entries d"

text \<open>\<^verbatim>\<open>except Exception\<close>: every exception class of the model derives from it.\<close>

fun is_Exception :: "exn \<Rightarrow> bool" where
  "is_Exception (KeyError _) = True"
| "is_Exception (IndexError _) = True"
| "is_Exception (TypeError _) = True"
| "is_Exception (AttributeError _) = True"
| "is_Exception (ValueError _) = True"

definition transform_response :: "json \<Rightarrow> exn + json" where
  "transform_response response =
     (case response of
        JObj d \<Rightarrow>
          if has_key sentinel d then Inr response
          else
            (case dumps_error response of
               Some e \<Rightarrow> Inl e
             | None \<Rightarrow>
                 (case transform_body (AList.update sentinel (JBool True) d) of
                    Inr transformed \<Rightarrow> Inr transformed
                  | Inl e \<Rightarrow> if is_Exception e then Inr response else Inl e))
      | _ \<Rightarrow> Inr response)"

section \<open>The response transformer on a store of objects\<close>

text \<open>
  A \<^verbatim>\<open>dict\<close> and a \<^verbatim>\<open>list\<close> are objects held by reference: \<^verbatim>\<open>response.copy()\<close> makes a
  new \<^verbatim>\<open>dict\<close> whose values are the references of the old one, and the loop writes into
  the \<^verbatim>\<open>choice\<close> objects it is handed. The store is the list of all objects, an address
  is a position in it, and a new object goes to the end. A reference beyond the end of
  the store does not occur in a Python state; the model treats it like \<^verbatim>\<open>None\<close>.
\<close>

datatype pyval =
    PNone
  | PBool bool
  | PInt int
  | PFloat "64 word"
  | PStr string
  | PRef nat

datatype pyobj =
    PDict "(string \<times> pyval) list"
  | PList "pyval list"

type_synonym store = "pyobj list"

definition lookup :: "store \<Rightarrow> nat \<Rightarrow> pyobj option" where
  "lookup h a = (if a < length h then Some (h ! a) else None)"

fun deref :: "store \<Rightarrow> pyval \<Rightarrow> pyobj option" where
  "deref h (PRef a) = lookup h a"
| "deref h _ = None"

definition alloc :: "pyobj \<Rightarrow> store \<Rightarrow> nat \<times> store" where
  "alloc obj h = (length h, h @ [obj])"

text \<open>\<^verbatim>\<open>d[k] = v\<close> on the \<^verbatim>\<open>dict\<close> at address \<open>a\<close>.\<close>

definition setitem :: "store \<Rightarrow> nat \<Rightarrow> string \<Rightarrow> pyval \<Rightarrow> store" where
  "setitem h a k v =
     (case lookup h a of
        Some (PDict d) \<Rightarrow> h[a := PDict (AList.update k v d)]
      | _ \<Rightarrow> h)"

fun type_name_st :: "store \<Rightarrow> pyval \<Rightarrow> string" where
  "type_name_st h PNone = ''NoneType''"
| "type_name_st h (PBool _) = ''bool''"
| "type_name_st h (PInt _) = ''int''"
| "type_name_st h (PFloat _) = ''float''"
| "type_name_st h (PStr _) = ''str''"
| "type_name_st h (PRef a) =
     (case lookup h a of
        Some (PDict _) \<Rightarrow> ''dict''
      | Some (PList _) \<Rightarrow> ''list''
      | None \<Rightarrow> ''NoneType'')"

fun truthy_st :: "store \<Rightarrow> pyval \<Rightarrow> bool" where
  "truthy_st h PNone = False"
| "truthy_st h (PBool b) = b"
| "truthy_st h (PInt i) = (i \<noteq> 0)"
| "truthy_st h (PFloat w) = (take_bit 63 w \<noteq> 0)"
| "truthy_st h (PStr s) = (s \<noteq> [])"
| "truthy_st h (PRef a) =
     (case lookup h a of
        Some (PDict d) \<Rightarrow> d \<noteq> []
      | Some (PList xs) \<Rightarrow> xs \<noteq> []
      | None \<Rightarrow> False)"

text \<open>
  The items that iterating a value yields: the elements of a list, the keys of a dict,
  the characters of a string. The loop never writes into a list or adds a key to the
  dict it iterates, so the items are those of the start.
\<close>

fun iter_st :: "store \<Rightarrow> pyval \<Rightarrow> exn + pyval list" where
  "iter_st h (PStr s) = Inr (map (\<lambda>c. PStr [c]) s)"
| "iter_st h (PRef a) =
     (case lookup h a of
        Some (PList xs) \<Rightarrow> Inr xs
      | Some (PDict d) \<Rightarrow> Inr (map (\<lambda>kv. PStr (fst kv)) d)
      | None \<Rightarrow> Inl (TypeError (quoted ''NoneType'' @ '' object is not iterable'')))"
| "iter_st h v = Inl (TypeError (quoted (type_name_st h v) @ '' object is not iterable''))"

text \<open>
  \<^verbatim>\<open>json.dumps(response)\<close> of line 52 on the store: besides the \<^verbatim>\<open>int\<close> that is too long
  it fails, with a \<^verbatim>\<open>ValueError\<close>, where it comes to a container that it is already inside
  of. A store of \<open>n\<close> objects has such a container on a path exactly when the path
  nests deeper than \<open>n\<close>, so the search goes \<open>n\<close> containers deep.
\<close>

fun dumps_error_st :: "nat \<Rightarrow> store \<Rightarrow> pyval \<Rightarrow> exn option" where
  "dumps_error_st n h (PInt i) = (if int_too_long i then Some digits_limit_error else None)"
| "dumps_error_st 0 h (PRef a) = Some (ValueError ''Circular reference detected'')"
| "dumps_error_st (Suc n) h (PRef a) =
     (case lookup h a of
        Some (PDict d) \<Rightarrow> first_error (map (\<lambda>kv. dumps_error_st n h (snd kv)) d)
      | Some (PList xs) \<Rightarrow> first_error (map (dumps_error_st n h) xs)
      | None \<Rightarrow> None)"
| "dumps_error_st n h v = None"

text \<open>The address and the entries of \<^verbatim>\<open>choice["message"]\<close> when it is a dict.\<close>

definition message_dict :: "store \<Rightarrow> (string \<times> pyval) list \<Rightarrow> (nat \<times> (string \<times> pyval) list) option" where
  "message_dict h choice =
     (case map_of choice ''message'' of
        Some (PRef m) \<Rightarrow>
          (case lookup h m of
             Some (PDict message) \<Rightarrow> Some (m, message)
           | _ \<Rightarrow> None)
      | _ \<Rightarrow> None)"

definition message_content_st :: "store \<Rightarrow> (string \<times> pyval) list \<Rightarrow> pyval option" where
  "message_content_st h choice =
     (case message_dict h choice of
        Some (m, message) \<Rightarrow> map_of message ''content''
      | None \<Rightarrow> None)"

text \<open>The body of the loop on one item: the store as the body leaves it.\<close>

definition fix_choice_st :: "pyval \<Rightarrow> store \<Rightarrow> store" where
  "fix_choice_st choice h =
     (case choice of
        PRef c \<Rightarrow>
          (case lookup h c of
             Some (PDict entries) \<Rightarrow>
               (case message_content_st h entries of
                  Some content \<Rightarrow>
                    if \<not> has_key ''text'' entries then setitem h c ''text'' content else h
                | None \<Rightarrow>
                    (case map_of entries ''text'' of
                       Some text \<Rightarrow>
                         (case message_dict h entries of
                            Some (m, message) \<Rightarrow>
                              if \<not> has_key ''content'' message
                              then setitem h m ''content'' text
                              else h
                          | None \<Rightarrow>
                              (let (m, h1) =
                                 alloc (PDict [(''role'', PStr ''assistant''), (''content'', text)]) h
                               in setitem h1 c ''message'' (PRef m)))
                     | None \<Rightarrow>
                         (let h1 = setitem h c ''text'' (PStr empty_content);
                              (m, h2) =
                                alloc (PDict [(''role'', PStr ''assistant''),
                                              (''content'', PStr empty_content)]) h1
                          in setitem h2 c ''message'' (PRef m))))
           | _ \<Rightarrow> h)
      | _ \<Rightarrow> h)"

text \<open>The \<^verbatim>\<open>try\<close> block, \<^verbatim>\<open>transformed\<close> being the dict at address \<open>t\<close>.\<close>

definition transform_body_st :: "store \<Rightarrow> nat \<Rightarrow> store \<times> (exn + pyval)" where
  "transform_body_st h t =
     (case lookup h t of
        Some (PDict transformed) \<Rightarrow>
          (case map_of transformed ''choices'' of
             None \<Rightarrow> (h, Inr (PRef t))
           | Some choices \<Rightarrow>
               if \<not> truthy_st h choices then (h, Inr (PRef t))
               else
                 (case iter_st h choices of
                    Inl e \<Rightarrow> (h, Inl e)
                  | Inr items \<Rightarrow> (fold fix_choice_st items h, Inr (PRef t))))
      | _ \<Rightarrow> (h, Inr (PRef t)))"

text \<open>
  The function: the store it leaves, and the reference it returns or the exception it
  raises.
\<close>

definition transform_response_st :: "store \<Rightarrow> pyval \<Rightarrow> store \<times> (exn + pyval)" where
  "transform_response_st h response =
     (case deref h response of
        Some (PDict d) \<Rightarrow>
          if has_key sentinel d then (h, Inr response)
          else
            (case dumps_error_st (length h) h response of
               Some e \<Rightarrow> (h, Inl e)
             | None \<Rightarrow>
                 (let (t, h1) = alloc (PDict d) h;
                      h2 = setitem h1 t sentinel (PBool True)
                  in case transform_body_st h2 t of
                       (h3, Inr v) \<Rightarrow> (h3, Inr v)
                     | (h3, Inl e) \<Rightarrow>
                         if is_Exception e then (h3, Inr response) else (h3, Inl e)))
      | _ \<Rightarrow> (h, Inr response))"




section \<open>JSON trees in the store\<close>

text \<open>
  A JSON tree is built in the store as a parser builds it: the parts of a container
  first, in their order, then the container itself, every container a new object.
\<close>

fun store_json :: "json \<Rightarrow> store \<Rightarrow> pyval \<times> store"
  and store_list :: "json list \<Rightarrow> store \<Rightarrow> pyval list \<times> store"
  and store_entries :: "(string \<times> json) list \<Rightarrow> store \<Rightarrow> (string \<times> pyval) list \<times> store"
where
  "store_json JNull h = (PNone, h)"
| "store_json (JBool b) h = (PBool b, h)"
| "store_json (JInt i) h = (PInt i, h)"
| "store_json (JFloat w) h = (PFloat w, h)"
| "store_json (JStr s) h = (PStr s, h)"
| "store_json (JArr js) h =
     (case store_list js h of (vs, h1) \<Rightarrow> (PRef (length h1), h1 @ [PList vs]))"
| "store_json (JObj d) h =
     (case store_entries d h of (es, h1) \<Rightarrow> (PRef (length h1), h1 @ [PDict es]))"
| "store_list [] h = ([], h)"
| "store_list (j # js) h =
     (case store_json j h of (v, h1) \<Rightarrow>
        (case store_list js h1 of (vs, h2) \<Rightarrow> (v # vs, h2)))"
| "store_entries [] h = ([], h)"
| "store_entries ((k, j) # d) h =
     (case store_json j h of (v, h1) \<Rightarrow>
        (case store_entries d h1 of (es, h2) \<Rightarrow> ((k, v) # es, h2)))"

text \<open>The number of containers of a tree: the number of objects it takes in the store.\<close>

fun cells :: "json \<Rightarrow> nat"
  and cells_list :: "json list \<Rightarrow> nat"
  and cells_entries :: "(string \<times> json) list \<Rightarrow> nat"
where
  "cells (JArr js) = Suc (cells_list js)"
| "cells (JObj d) = Suc (cells_entries d)"
| "cells _ = 0"
| "cells_list [] = 0"
| "cells_list (j # js) = cells j + cells_list js"
| "cells_entries [] = 0"
| "cells_entries ((k, j) # d) = cells j + cells_entries d"

text \<open>
  \<open>tree h v j lo\<close>: in the store \<open>h\<close> the value \<open>v\<close> is the tree \<open>j\<close>, laid out from the
  address \<open>lo\<close> on as \<^const>\<open>store_json\<close> lays it out, so that no object is shared.
\<close>

fun tree :: "store \<Rightarrow> pyval \<Rightarrow> json \<Rightarrow> nat \<Rightarrow> bool"
  and tree_list :: "store \<Rightarrow> pyval list \<Rightarrow> json list \<Rightarrow> nat \<Rightarrow> bool"
  and tree_entries :: "store \<Rightarrow> (string \<times> pyval) list \<Rightarrow> (string \<times> json) list \<Rightarrow> nat \<Rightarrow> bool"
where
  "tree h v JNull lo = (v = PNone)"
| "tree h v (JBool b) lo = (v = PBool b)"
| "tree h v (JInt i) lo = (v = PInt i)"
| "tree h v (JFloat w) lo = (v = PFloat w)"
| "tree h v (JStr s) lo = (v = PStr s)"
| "tree h v (JArr js) lo =
     (v = PRef (lo + cells_list js) \<and>
      (case lookup h (lo + cells_list js) of
         Some (PList vs) \<Rightarrow> tree_list h vs js lo
       | _ \<Rightarrow> False))"
| "tree h v (JObj d) lo =
     (v = PRef (lo + cells_entries d) \<and>
      (case lookup h (lo + cells_entries d) of
         Some (PDict es) \<Rightarrow> tree_entries h es d lo
       | _ \<Rightarrow> False))"
| "tree_list h [] [] lo = True"
| "tree_list h (v # vs) (j # js) lo = (tree h v j lo \<and> tree_list h vs js (lo + cells j))"
| "tree_list h _ _ lo = False"
| "tree_entries h [] [] lo = True"
| "tree_entries h ((k', v) # es) ((k, j) # d) lo =
     (k' = k \<and> tree h v j lo \<and> tree_entries h es d (lo + cells j))"
| "tree_entries h _ _ lo = False"

text \<open>
  \<open>denotes F h v j\<close>: read in the store \<open>h\<close>, through objects at addresses in \<open>F\<close> only,
  the value \<open>v\<close> is the tree \<open>j\<close>; objects may be shared.
\<close>

fun denotes :: "nat set \<Rightarrow> store \<Rightarrow> pyval \<Rightarrow> json \<Rightarrow> bool"
  and denotes_list :: "nat set \<Rightarrow> store \<Rightarrow> pyval list \<Rightarrow> json list \<Rightarrow> bool"
  and denotes_entries :: "nat set \<Rightarrow> store \<Rightarrow> (string \<times> pyval) list \<Rightarrow> (string \<times> json) list \<Rightarrow> bool"
where
  "denotes F h v JNull = (v = PNone)"
| "denotes F h v (JBool b) = (v = PBool b)"
| "denotes F h v (JInt i) = (v = PInt i)"
| "denotes F h v (JFloat w) = (v = PFloat w)"
| "denotes F h v (JStr s) = (v = PStr s)"
| "denotes F h v (JArr js) =
     (case v of
        PRef a \<Rightarrow>
          a \<in> F \<and>
          (case lookup h a of
             Some (PList vs) \<Rightarrow> denotes_list F h vs js
           | _ \<Rightarrow> False)
      | _ \<Rightarrow> False)"
| "denotes F h v (JObj d) =
     (case v of
        PRef a \<Rightarrow>
          a \<in> F \<and>
          (case lookup h a of
             Some (PDict es) \<Rightarrow> denotes_entries F h es d
           | _ \<Rightarrow> False)
      | _ \<Rightarrow> False)"
| "denotes_list F h [] [] = True"
| "denotes_list F h (v # vs) (j # js) = (denotes F h v j \<and> denotes_list F h vs js)"
| "denotes_list F h _ _ = False"
| "denotes_entries F h [] [] = True"
| "denotes_entries F h ((k', v) # es) ((k, j) # d) =
     (k' = k \<and> denotes F h v j \<and> denotes_entries F h es d)"
| "denotes_entries F h _ _ = False"

text \<open>
  The caller's input as the call leaves it, on values: where the call has come to the
  loop, the elements of a list under \<^verbatim>\<open>choices\<close> have gone through the loop body, and the
  mark is on the copy only.
\<close>

definition input_after :: "json \<Rightarrow> json" where
  "input_after response =
     (case response of
        JObj d \<Rightarrow>
          if has_key sentinel d \<or> dumps_error response \<noteq> None then response
          else
            (case map_of d ''choices'' of
               Some (JArr cs) \<Rightarrow> JObj (AList.update ''choices'' (JArr (map fix_choice cs)) d)
             | _ \<Rightarrow> response)
      | _ \<Rightarrow> response)"

text \<open>The number of objects that the entries before the first entry with the key \<open>k\<close> take.\<close>

fun offset :: "string \<Rightarrow> (string \<times> json) list \<Rightarrow> nat" where
  "offset k [] = 0"
| "offset k ((k', j) # d) = (if k' = k then 0 else cells j + offset k d)"


section \<open>Properties of the path extraction\<close>

lemmas path_eval = path_parts_def remove_char_def replace_char_def isdigit_def digit_char_def
  ascii_digit_def py_int_def digits_value_def max_str_digits_def index_limit_def index_error_def
  Let_def

lemma path_parts_empty: "path_parts [] = [[]]"
  by (simp add: path_parts_def remove_char_def replace_char_def)

lemma isdigit_empty: "\<not> isdigit []"
  by (simp add: isdigit_def)


text \<open>
  C8. \<^verbatim>\<open>extract({"a": {"b": 5}}, "a.b")\<close> is \<open>5\<close> and \<^verbatim>\<open>extract({"a": [1,2,3]}, "a[1]")\<close>
  is \<open>2\<close>, for \<^verbatim>\<open>extract_content_path\<close> and for the extraction loop of
  \<^verbatim>\<open>phoenix_request_analysis\<close> alike.
\<close>

theorem extract_happy_path:
  "extract_content_path (JObj [(''a'', JObj [(''b'', JInt 5)])]) ''a.b'' = Inr (JInt 5)
   \<and> extract_content_path (JObj [(''a'', JArr [JInt 1, JInt 2, JInt 3])]) ''a[1]'' = Inr (JInt 2)
   \<and> phoenix_request_analysis_extract (JObj [(''a'', JObj [(''b'', JInt 5)])]) ''a.b'' = JInt 5
   \<and> phoenix_request_analysis_extract (JObj [(''a'', JArr [JInt 1, JInt 2, JInt 3])]) ''a[1]'' = JInt 2"
  by (simp add: extract_content_path_def phoenix_request_analysis_extract_def path_eval)

text \<open>
  C6, as stated, fails: the empty path splits into one segment, the empty string, which
  is a key; so on \<^verbatim>\<open>{"a": 1}\<close> the extraction looks the empty key up and returns
  \<^verbatim>\<open>None\<close>, not the root.
\<close>

theorem extract_empty_path_counterexample:
  "extract_content_path (JObj [(''a'', JInt 1)]) [] = Inr JNull
   \<and> extract_content_path (JObj [(''a'', JInt 1)]) [] \<noteq> Inr (JObj [(''a'', JInt 1)])"
  by (simp add: extract_content_path_def path_eval)

text \<open>
  C6, amended. Walking an empty segment sequence is the identity, but the empty path is
  not parsed to one: \<^verbatim>\<open>"".split('.')\<close> is \<^verbatim>\<open>['']\<close>. So \<^verbatim>\<open>extract(v, "")\<close> is
  \<^verbatim>\<open>v.get("")\<close>: on a mapping the value under the empty key (\<^verbatim>\<open>None\<close> when the key is
  absent), on any other value the error string of the \<^verbatim>\<open>AttributeError\<close>.
\<close>

theorem extract_empty_path:
  "path_parts [] = [[]]
   \<and> walk v [] = Inr v
   \<and> extract_content_path v [] =
       (case v of
          JObj d \<Rightarrow> Inr (case map_of d [] of None \<Rightarrow> JNull | Some x \<Rightarrow> x)
        | _ \<Rightarrow> Inr (JStr (''Error accessing path: '' @ quoted (type_name v)
                    @ '' object has no attribute '' @ quoted ''get'')))"
  by (cases v) (simp_all add: extract_content_path_def path_parts_empty isdigit_empty split: option.splits)





section \<open>Properties of the response transformer\<close>

lemma has_key_update: "has_key k (AList.update k' v d) = (k = k' \<or> has_key k d)"
  by (simp add: has_key_def update_conv')

lemma map_of_update: "map_of (AList.update k' v d) k = (if k = k' then Some v else map_of d k)"
  by (simp add: update_conv')

lemma update_absent: "map_of d k = None \<Longrightarrow> AList.update k v d = d @ [(k, v)]"
  by (induction d) (auto split: if_splits)

lemma sentinel_not_choices: "sentinel \<noteq> ''choices''" "''choices'' \<noteq> sentinel"
  by (simp_all add: sentinel_def)

text \<open>An \<^verbatim>\<open>int\<close> of one digit is not too long, and \<open>10 ^ 4300\<close>, of 4301 digits, is.\<close>

lemma int_too_long_small: "\<bar>i\<bar> < 10 \<Longrightarrow> \<not> int_too_long i"
proof -
  have "(10::int) ^ 1 \<le> 10 ^ max_str_digits"
    by (rule power_increasing) (simp_all add: max_str_digits_def)
  then show "\<bar>i\<bar> < 10 \<Longrightarrow> \<not> int_too_long i"
    by (simp add: int_too_long_def)
qed

lemma int_too_long_limit: "int_too_long (10 ^ max_str_digits)"
  by (simp add: int_too_long_def)

text \<open>
  Where the debug statement fails, on a mapping that does not carry the mark, its
  exception propagates.
\<close>

lemma transform_response_raises:
  "\<not> has_key sentinel d \<Longrightarrow> dumps_error (JObj d) = Some e \<Longrightarrow> transform_response (JObj d) = Inl e"
  by (simp add: transform_response_def)

text \<open>
  The function on a mapping that does not carry the mark, where the debug statement
  succeeds, branch by branch.
\<close>

lemma transform_response_unmarked:
  assumes "\<not> has_key sentinel d" and "dumps_error (JObj d) = None"
  shows "transform_response (JObj d) =
     (case map_of d ''choices'' of
        None \<Rightarrow> Inr (JObj (AList.update sentinel (JBool True) d))
      | Some choices \<Rightarrow>
          if \<not> truthy choices then Inr (JObj (AList.update sentinel (JBool True) d))
          else
            (case process_choices choices of
               Inl e \<Rightarrow> Inr (JObj d)
             | Inr choices' \<Rightarrow>
                 Inr (JObj (AList.update ''choices'' choices' (AList.update sentinel (JBool True) d)))))"
proof -
  have e: "is_Exception e" for e by (cases e) simp_all
  show ?thesis
    using assms
    by (simp add: transform_response_def transform_body_def map_of_update sentinel_not_choices e
        split: option.splits sum.splits)
qed

text \<open>With a list under \<^verbatim>\<open>choices\<close>, the empty list included, every element goes through the loop body.\<close>

lemma transform_response_list:
  assumes "\<not> has_key sentinel d" and "dumps_error (JObj d) = None"
    and "map_of d ''choices'' = Some (JArr cs)"
  shows "transform_response (JObj d) =
     Inr (JObj (AList.update ''choices'' (JArr (map fix_choice cs))
                 (AList.update sentinel (JBool True) d)))"
proof (cases "cs = []")
  case True
  have "map_of (AList.update sentinel (JBool True) d) ''choices'' = Some (JArr [])"
    using assms(3) True by (simp add: map_of_update sentinel_not_choices)
  then have "AList.update ''choices'' (JArr []) (AList.update sentinel (JBool True) d)
      = AList.update sentinel (JBool True) d"
    by (rule update_triv)
  with True assms show ?thesis
    by (simp add: transform_response_unmarked)
next
  case False
  with assms show ?thesis
    by (simp add: transform_response_unmarked)
qed

lemma transform_response_marked: "has_key sentinel d \<Longrightarrow> transform_response (JObj d) = Inr (JObj d)"
  by (simp add: transform_response_def)

lemma transform_response_not_dict: "\<not> is_dict r \<Longrightarrow> transform_response r = Inr r"
  by (cases r) (simp_all add: transform_response_def)

lemma fix_choice_not_dict: "\<not> is_dict c \<Longrightarrow> fix_choice c = c"
  by (cases c) simp_all

lemma path_parts_text: "path_parts ''text'' = [''text'']"
  by (simp add: path_parts_def remove_char_def replace_char_def)

lemma path_parts_message_content: "path_parts ''message.content'' = [''message'', ''content'']"
  by (simp add: path_parts_def remove_char_def replace_char_def)

lemma not_isdigit_fields:
  "\<not> isdigit ''text''" "\<not> isdigit ''message''" "\<not> isdigit ''content''"
  by (simp_all add: isdigit_def digit_char_def ascii_digit_def)

text \<open>What the extraction finds under \<^verbatim>\<open>text\<close> and under \<^verbatim>\<open>message.content\<close> of a mapping.\<close>

lemma extract_text:
  "map_of c ''text'' = Some (JStr x) \<Longrightarrow> extract_content_path (JObj c) ''text'' = Inr (JStr x)"
  by (simp add: extract_content_path_def path_parts_text not_isdigit_fields)

lemma extract_message_content:
  "message_content c = Some (JStr x) \<Longrightarrow>
     extract_content_path (JObj c) ''message.content'' = Inr (JStr x)"
  by (auto simp: extract_content_path_def path_parts_message_content not_isdigit_fields
      message_content_def split: option.splits json.splits)

lemma message_content_update_text:
  "message_content (AList.update ''text'' v c) = message_content c"
  by (simp add: message_content_def map_of_update)
text \<open>
  C10. The guard tests that the key is there, not what it holds: an input that is not a
  mapping, or a mapping with the key \<^verbatim>\<open>__phoenix_processed__\<close> under any value, is
  returned as it is; on the store, the very reference that was passed is returned and no
  object is written.
\<close>

theorem sentinel_guard_presence:
  "(\<not> is_dict r \<or> (\<exists>d x. r = JObj d \<and> map_of d sentinel = Some x)
      \<longrightarrow> transform_response r = Inr r)
   \<and> ((\<forall>d. deref h v \<noteq> Some (PDict d)) \<or> (\<exists>d x. deref h v = Some (PDict d) \<and> map_of d sentinel = Some x)
      \<longrightarrow> transform_response_st h v = (h, Inr v))"
proof (intro conjI impI)
  assume "\<not> is_dict r \<or> (\<exists>d x. r = JObj d \<and> map_of d sentinel = Some x)"
  then show "transform_response r = Inr r"
    by (auto simp: transform_response_not_dict transform_response_marked has_key_def)
next
  assume "(\<forall>d. deref h v \<noteq> Some (PDict d))
    \<or> (\<exists>d x. deref h v = Some (PDict d) \<and> map_of d sentinel = Some x)"
  then show "transform_response_st h v = (h, Inr v)"
    by (auto simp: transform_response_st_def has_key_def split: option.splits pyobj.splits)
qed

theorem sentinel_guard_presence_witness:
  "transform_response (JObj [(''__phoenix_processed__'', JBool False), (''choices'', JArr [JObj []])])
     = Inr (JObj [(''__phoenix_processed__'', JBool False), (''choices'', JArr [JObj []])])
   \<and> transform_response (JArr [JObj []]) = Inr (JArr [JObj []])
   \<and> transform_response_st
        [PDict [(''__phoenix_processed__'', PBool False), (''choices'', PRef 1)],
         PList [PRef 2], PDict []] (PRef 0)
     = ([PDict [(''__phoenix_processed__'', PBool False), (''choices'', PRef 1)],
         PList [PRef 2], PDict []], Inr (PRef 0))
   \<and> transform_response_st [PList [PRef 1], PDict []] (PRef 0)
     = ([PList [PRef 1], PDict []], Inr (PRef 0))"
  using sentinel_guard_presence
      [of "JObj [(''__phoenix_processed__'', JBool False), (''choices'', JArr [JObj []])]"
          "[PDict [(''__phoenix_processed__'', PBool False), (''choices'', PRef 1)],
            PList [PRef 2], PDict []]" "PRef 0"]
    sentinel_guard_presence [of "JArr [JObj []]" "[PList [PRef 1], PDict []]" "PRef 0"]
  by (simp add: sentinel_def lookup_def)

text \<open>
  A value that the transformer returns carries the mark, or is the input that the guard
  or the handler has handed back: called on it, the transformer returns it again.
\<close>

lemma transform_response_fixed:
  assumes "transform_response r = Inr v"
  shows "transform_response v = Inr v"
proof (cases "is_dict r")
  case False
  with assms have "v = r"
    by (simp add: transform_response_not_dict)
  with False show ?thesis
    by (simp add: transform_response_not_dict)
next
  case True
  then obtain d where r: "r = JObj d" by (cases r) simp_all
  show ?thesis
  proof (cases "has_key sentinel d")
    case True
    with r assms show ?thesis by (auto simp: transform_response_marked)
  next
    case False
    from False r assms have ok: "dumps_error (JObj d) = None"
      by (cases "dumps_error (JObj d)") (simp_all add: transform_response_raises)
    have m: "has_key sentinel (AList.update sentinel (JBool True) d)"
      "has_key sentinel (AList.update ''choices'' c (AList.update sentinel (JBool True) d))" for c
      by (simp_all add: has_key_update)
    from False ok r assms m show ?thesis
      by (auto simp: transform_response_unmarked transform_response_marked
          split: option.splits sum.splits if_splits)
  qed
qed

lemma transform_response_returns:
  "dumps_error r = None \<Longrightarrow> \<exists>v. transform_response r = Inr v"
proof (cases r)
  case (JObj d)
  assume "dumps_error r = None"
  with JObj show ?thesis
    by (cases "has_key sentinel d")
      (auto simp: transform_response_marked transform_response_unmarked
        split: option.splits sum.splits)
qed (simp_all add: transform_response_def)

text \<open>
  C1. The transformer is idempotent. For every value, normalizing twice has the outcome
  of normalizing once; every value that a call returns is returned unchanged by the
  next call; and where the debug statement of line 52 succeeds (no \<^verbatim>\<open>int\<close> of more than
  4300 digits in the response), the call returns a value \<open>v\<close> and returns \<open>v\<close> again on \<open>v\<close>.
\<close>

theorem transform_response_idempotent:
  "(case transform_response r of Inl e \<Rightarrow> Inl e | Inr v \<Rightarrow> transform_response v)
     = transform_response r
   \<and> (\<forall>v. transform_response r = Inr v \<longrightarrow> transform_response v = Inr v)
   \<and> (dumps_error r = None \<longrightarrow>
        (\<exists>v. transform_response r = Inr v \<and> transform_response v = Inr v))"
proof (intro conjI allI impI)
  show "(case transform_response r of Inl e \<Rightarrow> Inl e | Inr v \<Rightarrow> transform_response v)
     = transform_response r"
    by (cases "transform_response r") (simp_all add: transform_response_fixed)
next
  fix v assume "transform_response r = Inr v"
  then show "transform_response v = Inr v"
    by (rule transform_response_fixed)
next
  assume "dumps_error r = None"
  then obtain v where "transform_response r = Inr v"
    using transform_response_returns by blast
  then show "\<exists>v. transform_response r = Inr v \<and> transform_response v = Inr v"
    by (auto dest: transform_response_fixed)
qed

theorem transform_response_idempotent_witness:
  "dumps_error (JObj [(''choices'', JArr [JObj [(''index'', JInt 0)]])]) = None
   \<and> (\<exists>v. transform_response (JObj [(''choices'', JArr [JObj [(''index'', JInt 0)]])]) = Inr v
          \<and> transform_response v = Inr v)"
proof -
  have d: "dumps_error (JObj [(''choices'', JArr [JObj [(''index'', JInt 0)]])]) = None"
    by (simp add: int_too_long_small)
  with transform_response_idempotent [of "JObj [(''choices'', JArr [JObj [(''index'', JInt 0)]])]"]
  show ?thesis
    by blast
qed

text \<open>
  C3, as stated, fails: with an empty \<^verbatim>\<open>choices\<close> the function returns the copy that
  carries the mark, so the result has one field more than the input.
\<close>

theorem empty_choices_counterexample:
  "transform_response (JObj [(''choices'', JArr [])])
     = Inr (JObj [(''choices'', JArr []), (''__phoenix_processed__'', JBool True)])
   \<and> transform_response (JObj [(''choices'', JArr [])]) \<noteq> Inr (JObj [(''choices'', JArr [])])"
  by (simp add: transform_response_def transform_body_def has_key_def sentinel_def)

text \<open>
  C3, amended. For a mapping that does not carry the mark yet, and where the debug
  statement of line 52 succeeds (no \<^verbatim>\<open>int\<close> of more than 4300 digits in the response): if
  \<^verbatim>\<open>choices\<close> is absent or is the empty list, the function returns, without an error, the
  input with exactly one field added at the end, \<^verbatim>\<open>"__phoenix_processed__": True\<close>.
\<close>

theorem empty_choices_marked:
  assumes "map_of d sentinel = None"
    and "dumps_error (JObj d) = None"
    and "map_of d ''choices'' = None \<or> map_of d ''choices'' = Some (JArr [])"
  shows "transform_response (JObj d) = Inr (JObj (d @ [(sentinel, JBool True)]))"
  using assms
  by (auto simp: transform_response_unmarked has_key_def update_absent)

theorem empty_choices_marked_witness:
  "transform_response (JObj [(''id'', JStr ''x''), (''choices'', JArr [])])
     = Inr (JObj [(''id'', JStr ''x''), (''choices'', JArr []), (''__phoenix_processed__'', JBool True)])
   \<and> transform_response (JObj [(''id'', JStr ''x'')])
     = Inr (JObj [(''id'', JStr ''x''), (''__phoenix_processed__'', JBool True)])"
  using empty_choices_marked [of "[(''id'', JStr ''x''), (''choices'', JArr [])]"]
    empty_choices_marked [of "[(''id'', JStr ''x'')]"]
  by (simp add: sentinel_def)

text \<open>
  C4, as stated, fails: a choice that has \<^verbatim>\<open>message.content\<close> \<open>X\<close> and already a
  \<^verbatim>\<open>text\<close> \<open>Y\<close> keeps its \<^verbatim>\<open>text\<close>, and extracting \<^verbatim>\<open>text\<close> yields \<open>Y\<close>.
\<close>

theorem round_trip_counterexample:
  "transform_response
     (JObj [(''choices'',
        JArr [JObj [(''text'', JStr ''Y''), (''message'', JObj [(''content'', JStr ''X'')])]])])
     = Inr (JObj [(''choices'',
        JArr [JObj [(''text'', JStr ''Y''), (''message'', JObj [(''content'', JStr ''X'')])]]),
        (''__phoenix_processed__'', JBool True)])
   \<and> extract_content_path
        (JObj [(''text'', JStr ''Y''), (''message'', JObj [(''content'', JStr ''X'')])]) ''text''
     = Inr (JStr ''Y'')"
  by (simp add: transform_response_def transform_body_def has_key_def sentinel_def
      message_content_def extract_content_path_def path_parts_text not_isdigit_fields)

text \<open>
  C4, amended. In a response that is normalized (a mapping without the mark, with a list
  under \<^verbatim>\<open>choices\<close>, on which the debug statement of line 52 succeeds), for every choice
  object that has the string \<open>X\<close> at
  \<^verbatim>\<open>message.content\<close> and has no \<^verbatim>\<open>text\<close> field, or the \<^verbatim>\<open>text\<close> \<open>X\<close> already: after the
  normalization, extracting \<^verbatim>\<open>text\<close> from that choice yields \<open>X\<close> and extracting
  \<^verbatim>\<open>message.content\<close> yields \<open>X\<close>.
\<close>

theorem message_content_round_trip:
  assumes "\<not> has_key sentinel d"
    and "dumps_error (JObj d) = None"
    and "map_of d ''choices'' = Some (JArr cs)"
    and "i < length cs"
    and "cs ! i = JObj c"
    and "message_content c = Some (JStr x)"
    and "map_of c ''text'' = None \<or> map_of c ''text'' = Some (JStr x)"
  shows "\<exists>d' cs'. transform_response (JObj d) = Inr (JObj d')
           \<and> map_of d' ''choices'' = Some (JArr cs')
           \<and> length cs' = length cs
           \<and> extract_content_path (cs' ! i) ''text'' = Inr (JStr x)
           \<and> extract_content_path (cs' ! i) ''message.content'' = Inr (JStr x)"
proof -
  let ?cs' = "map fix_choice cs"
  let ?d' = "AList.update ''choices'' (JArr ?cs') (AList.update sentinel (JBool True) d)"
  have r: "transform_response (JObj d) = Inr (JObj ?d')"
    using assms(1,2,3) by (rule transform_response_list)
  have m: "map_of ?d' ''choices'' = Some (JArr ?cs')"
    by (simp add: map_of_update)
  have i: "?cs' ! i = fix_choice (JObj c)"
    using assms(4,5) by simp
  from assms(7) have "\<exists>c'. fix_choice (JObj c) = JObj c' \<and> map_of c' ''text'' = Some (JStr x)
      \<and> message_content c' = Some (JStr x)"
  proof
    assume "map_of c ''text'' = None"
    with assms(6) show ?thesis
      by (simp add: has_key_def map_of_update message_content_update_text)
  next
    assume "map_of c ''text'' = Some (JStr x)"
    with assms(6) show ?thesis
      by (simp add: has_key_def)
  qed
  then obtain c' where c': "fix_choice (JObj c) = JObj c'" "map_of c' ''text'' = Some (JStr x)"
    "message_content c' = Some (JStr x)"
    by blast
  have "extract_content_path (?cs' ! i) ''text'' = Inr (JStr x)"
    "extract_content_path (?cs' ! i) ''message.content'' = Inr (JStr x)"
    using c' by (simp_all add: i extract_text extract_message_content)
  with r m show ?thesis
    by (intro exI [of _ ?d'] exI [of _ ?cs']) simp
qed

theorem message_content_round_trip_witness:
  "\<exists>d' cs'. transform_response
       (JObj [(''choices'', JArr [JObj [(''message'', JObj [(''content'', JStr ''X'')])]])])
         = Inr (JObj d')
       \<and> map_of d' ''choices'' = Some (JArr cs')
       \<and> length cs' = 1
       \<and> extract_content_path (cs' ! 0) ''text'' = Inr (JStr ''X'')
       \<and> extract_content_path (cs' ! 0) ''message.content'' = Inr (JStr ''X'')"
  using message_content_round_trip
    [of "[(''choices'', JArr [JObj [(''message'', JObj [(''content'', JStr ''X'')])]])]"
        "[JObj [(''message'', JObj [(''content'', JStr ''X'')])]]" 0
        "[(''message'', JObj [(''content'', JStr ''X'')])]" "''X''"]
  by (simp add: has_key_def sentinel_def message_content_def)

text \<open>
  C5. In a response that is normalized (a mapping without the mark, with a list under
  \<^verbatim>\<open>choices\<close>, on which the debug statement of line 52 succeeds), a choice object that has neither a \<^verbatim>\<open>text\<close> field nor a
  \<^verbatim>\<open>message.content\<close> field gets the \<^verbatim>\<open>text\<close> \<^verbatim>\<open>"No content available"\<close> and the
  \<^verbatim>\<open>message\<close> \<^verbatim>\<open>{"role": "assistant", "content": "No content available"}\<close>; so does the
  choice of \<^verbatim>\<open>{"choices":[{"index":0}]}\<close>.
\<close>

theorem fallback_on_empty_choice:
  "(\<not> has_key sentinel d \<and> dumps_error (JObj d) = None
      \<and> map_of d ''choices'' = Some (JArr cs) \<and> i < length cs
      \<and> cs ! i = JObj c \<and> \<not> has_key ''text'' c \<and> message_content c = None
    \<longrightarrow> (\<exists>d' cs' c'. transform_response (JObj d) = Inr (JObj d')
           \<and> map_of d' ''choices'' = Some (JArr cs')
           \<and> length cs' = length cs
           \<and> cs' ! i = JObj c'
           \<and> map_of c' ''text'' = Some (JStr ''No content available'')
           \<and> map_of c' ''message''
               = Some (JObj [(''role'', JStr ''assistant''),
                             (''content'', JStr ''No content available'')])
           \<and> message_content c' = Some (JStr ''No content available'')))
   \<and> transform_response (JObj [(''choices'', JArr [JObj [(''index'', JInt 0)]])])
       = Inr (JObj [(''choices'',
                JArr [JObj [(''index'', JInt 0), (''text'', JStr ''No content available''),
                  (''message'', JObj [(''role'', JStr ''assistant''),
                                      (''content'', JStr ''No content available'')])]]),
              (''__phoenix_processed__'', JBool True)])"
proof (intro conjI impI)
  assume a: "\<not> has_key sentinel d \<and> dumps_error (JObj d) = None
      \<and> map_of d ''choices'' = Some (JArr cs) \<and> i < length cs
      \<and> cs ! i = JObj c \<and> \<not> has_key ''text'' c \<and> message_content c = None"
  let ?cs' = "map fix_choice cs"
  let ?d' = "AList.update ''choices'' (JArr ?cs') (AList.update sentinel (JBool True) d)"
  let ?m = "JObj [(''role'', JStr ''assistant''), (''content'', JStr ''No content available'')]"
  let ?c' = "AList.update ''message'' ?m (AList.update ''text'' (JStr ''No content available'') c)"
  have r: "transform_response (JObj d) = Inr (JObj ?d')"
    using a by (simp add: transform_response_list)
  have m: "map_of ?d' ''choices'' = Some (JArr ?cs')"
    by (simp add: map_of_update)
  have f: "fix_choice (JObj c) = JObj ?c'"
    using a by (simp add: has_key_def empty_content_def)
  have i: "?cs' ! i = JObj ?c'"
    using a f by simp
  have t: "map_of ?c' ''text'' = Some (JStr ''No content available'')"
    "map_of ?c' ''message'' = Some ?m"
    "message_content ?c' = Some (JStr ''No content available'')"
    by (simp_all add: map_of_update message_content_def)
  from r m i t show "\<exists>d' cs' c'. transform_response (JObj d) = Inr (JObj d')
           \<and> map_of d' ''choices'' = Some (JArr cs')
           \<and> length cs' = length cs
           \<and> cs' ! i = JObj c'
           \<and> map_of c' ''text'' = Some (JStr ''No content available'')
           \<and> map_of c' ''message'' = Some ?m
           \<and> message_content c' = Some (JStr ''No content available'')"
    by (intro exI [of _ ?d'] exI [of _ ?cs'] exI [of _ ?c']) simp
next
  show "transform_response (JObj [(''choices'', JArr [JObj [(''index'', JInt 0)]])])
       = Inr (JObj [(''choices'',
                JArr [JObj [(''index'', JInt 0), (''text'', JStr ''No content available''),
                  (''message'', JObj [(''role'', JStr ''assistant''),
                                      (''content'', JStr ''No content available'')])]]),
              (''__phoenix_processed__'', JBool True)])"
    by (simp add: transform_response_def transform_body_def has_key_def sentinel_def
        message_content_def empty_content_def int_too_long_small)
qed

theorem fallback_on_empty_choice_witness:
  "\<exists>d' cs' c'. transform_response
       (JObj [(''choices'', JArr [JObj [(''text'', JStr ''t'')], JObj [(''message'', JStr ''m'')]])])
         = Inr (JObj d')
       \<and> map_of d' ''choices'' = Some (JArr cs')
       \<and> length cs' = 2
       \<and> cs' ! 1 = JObj c'
       \<and> map_of c' ''text'' = Some (JStr ''No content available'')
       \<and> map_of c' ''message''
           = Some (JObj [(''role'', JStr ''assistant''),
                         (''content'', JStr ''No content available'')])
       \<and> message_content c' = Some (JStr ''No content available'')"
proof -
  let ?c = "[(''message'', JStr ''m'')]"
  let ?cs = "[JObj [(''text'', JStr ''t'')], JObj ?c]"
  let ?d = "[(''choices'', JArr ?cs)]"
  have h: "\<not> has_key sentinel ?d \<and> dumps_error (JObj ?d) = None
      \<and> map_of ?d ''choices'' = Some (JArr ?cs) \<and> 1 < length ?cs
      \<and> ?cs ! 1 = JObj ?c \<and> \<not> has_key ''text'' ?c \<and> message_content ?c = None"
    by (simp add: has_key_def sentinel_def message_content_def)
  have l: "length ?cs = 2"
    by simp
  from fallback_on_empty_choice [of ?d ?cs 1 ?c, THEN conjunct1, THEN mp, OF h]
  show ?thesis
    unfolding l .
qed

text \<open>
  Where the debug statement of line 52 succeeds and \<^verbatim>\<open>choices\<close> is a list, the returned
  mapping has a list of the same length under \<^verbatim>\<open>choices\<close>, in which every element that is
  not a mapping is the element of the input.
\<close>

lemma transform_response_skips:
  assumes "dumps_error (JObj d) = None" and "map_of d ''choices'' = Some (JArr cs)"
  shows "\<exists>d' cs'. transform_response (JObj d) = Inr (JObj d')
           \<and> map_of d' ''choices'' = Some (JArr cs')
           \<and> length cs' = length cs
           \<and> (\<forall>i<length cs. \<not> is_dict (cs ! i) \<longrightarrow> cs' ! i = cs ! i)"
proof (cases "has_key sentinel d")
  case True
  with assms show ?thesis
    by (intro exI [of _ d] exI [of _ cs]) (simp add: transform_response_marked)
next
  case False
  let ?cs' = "map fix_choice cs"
  let ?d' = "AList.update ''choices'' (JArr ?cs') (AList.update sentinel (JBool True) d)"
  from False assms have "transform_response (JObj d) = Inr (JObj ?d')"
    by (simp add: transform_response_list)
  moreover have "map_of ?d' ''choices'' = Some (JArr ?cs')"
    by (simp add: map_of_update)
  moreover have "\<forall>i<length cs. \<not> is_dict (cs ! i) \<longrightarrow> ?cs' ! i = cs ! i"
    by (simp add: fix_choice_not_dict)
  ultimately show ?thesis
    by (intro exI [of _ ?d'] exI [of _ ?cs']) simp
qed

text \<open>
  C7. The transformer is meant never to raise: its \<^verbatim>\<open>try\<close> block hands the input back on
  every exception. The code raises all the same. The debug statement of line 52 stands
  before the \<^verbatim>\<open>try\<close> of line 60 and calls \<^verbatim>\<open>json.dumps(response)\<close>: on
  \<^verbatim>\<open>{"id": 10 ** 4300, "choices": []}\<close>, whose \<^verbatim>\<open>int\<close> has 4301 digits, the \<^verbatim>\<open>ValueError\<close> of
  the conversion propagates to the caller; and so does the \<^verbatim>\<open>ValueError\<close> of a dict that
  contains itself.
\<close>

theorem transform_response_raises_before_try:
  "transform_response (JObj [(''id'', JInt (10 ^ max_str_digits)), (''choices'', JArr [])])
     = Inl digits_limit_error
   \<and> transform_response_st [PDict [(''self'', PRef 0)]] (PRef 0)
     = ([PDict [(''self'', PRef 0)]], Inl (ValueError ''Circular reference detected''))"
  by (simp add: transform_response_def transform_response_st_def has_key_def sentinel_def
      int_too_long_limit lookup_def)


section \<open>Properties of the response transformer on a store\<close>












text \<open>The store after the copy has been made and marked.\<close>

lemma copy_marked:
  "setitem (h @ [PDict d]) (length h) sentinel (PBool True)
     = h @ [PDict (AList.update sentinel (PBool True) d)]"
  by (simp add: setitem_def lookup_def)





section \<open>The store computes what the values say\<close>

text \<open>
  The transformer on values and the transformer on the store are two readings of the same
  function. This section shows that they agree on JSON trees: when a tree is built in
  the store and the function runs on it, the reference it returns denotes the value that
  \<^const>\<open>transform_response\<close> gives, and the caller's input denotes \<^const>\<open>input_after\<close>.
\<close>

lemma tree_frame:
  "(\<And>a. lo \<le> a \<Longrightarrow> a < lo + cells j \<Longrightarrow> lookup h' a = lookup h a) \<Longrightarrow>
     tree h v j lo \<Longrightarrow> tree h' v j lo"
  and tree_list_frame:
  "(\<And>a. lo \<le> a \<Longrightarrow> a < lo + cells_list js \<Longrightarrow> lookup h' a = lookup h a) \<Longrightarrow>
     tree_list h vs js lo \<Longrightarrow> tree_list h' vs js lo"
  and tree_entries_frame:
  "(\<And>a. lo \<le> a \<Longrightarrow> a < lo + cells_entries d \<Longrightarrow> lookup h' a = lookup h a) \<Longrightarrow>
     tree_entries h es d lo \<Longrightarrow> tree_entries h' es d lo"
proof (induction h v j lo and h vs js lo and h es d lo rule: tree_tree_list_tree_entries.induct)
  case (6 h v js lo)
  from "6.prems"(2) obtain vs where l: "lookup h (lo + cells_list js) = Some (PList vs)"
    and v: "v = PRef (lo + cells_list js)" and t: "tree_list h vs js lo"
    by (auto split: option.splits pyobj.splits)
  have "lookup h' (lo + cells_list js) = Some (PList vs)"
    using "6.prems"(1) [of "lo + cells_list js"] l by simp
  moreover have "tree_list h' vs js lo"
    using "6.IH" [OF l refl _ t] "6.prems"(1) by simp
  ultimately show ?case using v by simp
next
  case (7 h v d lo)
  from "7.prems"(2) obtain es where l: "lookup h (lo + cells_entries d) = Some (PDict es)"
    and v: "v = PRef (lo + cells_entries d)" and t: "tree_entries h es d lo"
    by (auto split: option.splits pyobj.splits)
  have "lookup h' (lo + cells_entries d) = Some (PDict es)"
    using "7.prems"(1) [of "lo + cells_entries d"] l by simp
  moreover have "tree_entries h' es d lo"
    using "7.IH" [OF l refl _ t] "7.prems"(1) by simp
  ultimately show ?case using v by simp
qed auto

lemma lookup_prefix: "a < length h \<Longrightarrow> lookup (h @ ext) a = lookup h a"
  by (simp add: lookup_def nth_append)

lemma lookup_length: "lookup (h @ [obj]) (length h) = Some obj"
  by (simp add: lookup_def)

lemma store_json_tree:
  "store_json j h = (v, h') \<Longrightarrow>
     length h' = length h + cells j \<and> (\<exists>ext. h' = h @ ext) \<and> tree h' v j (length h)"
  and store_list_tree:
  "store_list js h = (vs, h') \<Longrightarrow>
     length h' = length h + cells_list js \<and> (\<exists>ext. h' = h @ ext) \<and> tree_list h' vs js (length h)"
  and store_entries_tree:
  "store_entries d h = (es, h') \<Longrightarrow>
     length h' = length h + cells_entries d \<and> (\<exists>ext. h' = h @ ext) \<and> tree_entries h' es d (length h)"
proof (induction j h and js h and d h arbitrary: v h' and vs h' and es h'
    rule: store_json_store_list_store_entries.induct)
  case (6 js h)
  obtain ws h1 where s: "store_list js h = (ws, h1)"
    by (cases "store_list js h")
  from "6.IH" [OF s] obtain ext where ih: "length h1 = length h + cells_list js" "h1 = h @ ext"
    "tree_list h1 ws js (length h)"
    by blast
  from "6.prems" s have r: "v = PRef (length h1)" "h' = h1 @ [PList ws]"
    by simp_all
  have "tree_list h' ws js (length h)"
    using ih(3)
  proof (rule tree_list_frame [rotated])
    fix a assume "length h \<le> a" "a < length h + cells_list js"
    with ih(1) r(2) show "lookup h' a = lookup h1 a"
      by (simp add: lookup_prefix)
  qed
  moreover have "lookup (h1 @ [PList ws]) (length h1) = Some (PList ws)"
    by (rule lookup_length)
  then have "lookup h' (length h + cells_list js) = Some (PList ws)"
    using r(2) ih(1) by simp
  moreover have "\<exists>ext. h' = h @ ext"
    using r(2) ih(2) by simp
  ultimately show ?case
    using ih(1) r by simp
next
  case (7 d h)
  obtain ws h1 where s: "store_entries d h = (ws, h1)"
    by (cases "store_entries d h")
  from "7.IH" [OF s] obtain ext where ih: "length h1 = length h + cells_entries d" "h1 = h @ ext"
    "tree_entries h1 ws d (length h)"
    by blast
  from "7.prems" s have r: "v = PRef (length h1)" "h' = h1 @ [PDict ws]"
    by simp_all
  have "tree_entries h' ws d (length h)"
    using ih(3)
  proof (rule tree_entries_frame [rotated])
    fix a assume "length h \<le> a" "a < length h + cells_entries d"
    with ih(1) r(2) show "lookup h' a = lookup h1 a"
      by (simp add: lookup_prefix)
  qed
  moreover have "lookup (h1 @ [PDict ws]) (length h1) = Some (PDict ws)"
    by (rule lookup_length)
  then have "lookup h' (length h + cells_entries d) = Some (PDict ws)"
    using r(2) ih(1) by simp
  moreover have "\<exists>ext. h' = h @ ext"
    using r(2) ih(2) by simp
  ultimately show ?case
    using ih(1) r by simp
next
  case (9 j js h)
  obtain w h1 where s1: "store_json j h = (w, h1)"
    by (cases "store_json j h")
  obtain ws h2 where s2: "store_list js h1 = (ws, h2)"
    by (cases "store_list js h1")
  from "9.IH"(1) [OF s1] obtain ext1 where ih1: "length h1 = length h + cells j" "h1 = h @ ext1"
    "tree h1 w j (length h)"
    by blast
  from "9.IH"(2) [OF s1 [symmetric] s2] obtain ext2 where
    ih2: "length h2 = length h1 + cells_list js" "h2 = h1 @ ext2" "tree_list h2 ws js (length h1)"
    by blast
  from "9.prems" s1 s2 have r: "vs = w # ws" "h' = h2"
    by simp_all
  have "tree h2 w j (length h)"
    using ih1(3)
  proof (rule tree_frame [rotated])
    fix a assume "length h \<le> a" "a < length h + cells j"
    with ih1(1) ih2(2) show "lookup h2 a = lookup h1 a"
      by (simp add: lookup_prefix)
  qed
  with ih1 ih2 r show ?case
    by simp
next
  case (11 k j d h)
  obtain w h1 where s1: "store_json j h = (w, h1)"
    by (cases "store_json j h")
  obtain ws h2 where s2: "store_entries d h1 = (ws, h2)"
    by (cases "store_entries d h1")
  from "11.IH"(1) [OF s1] obtain ext1 where ih1: "length h1 = length h + cells j" "h1 = h @ ext1"
    "tree h1 w j (length h)"
    by blast
  from "11.IH"(2) [OF s1 [symmetric] s2] obtain ext2 where
    ih2: "length h2 = length h1 + cells_entries d" "h2 = h1 @ ext2"
    "tree_entries h2 ws d (length h1)"
    by blast
  from "11.prems" s1 s2 have r: "es = (k, w) # ws" "h' = h2"
    by simp_all
  have "tree h2 w j (length h)"
    using ih1(3)
  proof (rule tree_frame [rotated])
    fix a assume "length h \<le> a" "a < length h + cells j"
    with ih1(1) ih2(2) show "lookup h2 a = lookup h1 a"
      by (simp add: lookup_prefix)
  qed
  with ih1 ih2 r show ?case
    by simp
qed auto

lemma denotes_frame:
  "F \<subseteq> G \<Longrightarrow> (\<And>a. a \<in> F \<Longrightarrow> lookup h' a = lookup h a) \<Longrightarrow>
     denotes F h v j \<Longrightarrow> denotes G h' v j"
  and denotes_list_frame:
  "F \<subseteq> G \<Longrightarrow> (\<And>a. a \<in> F \<Longrightarrow> lookup h' a = lookup h a) \<Longrightarrow>
     denotes_list F h vs js \<Longrightarrow> denotes_list G h' vs js"
  and denotes_entries_frame:
  "F \<subseteq> G \<Longrightarrow> (\<And>a. a \<in> F \<Longrightarrow> lookup h' a = lookup h a) \<Longrightarrow>
     denotes_entries F h es d \<Longrightarrow> denotes_entries G h' es d"
proof (induction F h v j and F h vs js and F h es d
    rule: denotes_denotes_list_denotes_entries.induct)
  case (6 F h v js)
  from "6.prems"(3) obtain a vs where v: "v = PRef a" "a \<in> F"
    and l: "lookup h a = Some (PList vs)" and t: "denotes_list F h vs js"
    by (auto split: pyval.splits option.splits pyobj.splits)
  have "lookup h' a = Some (PList vs)"
    using "6.prems"(2) [OF v(2)] l by simp
  moreover have "denotes_list G h' vs js"
    using "6.IH" [OF v(1) l refl "6.prems"(1) _ t] "6.prems"(2) by simp
  ultimately show ?case using v "6.prems"(1) by auto
next
  case (7 F h v d)
  from "7.prems"(3) obtain a es where v: "v = PRef a" "a \<in> F"
    and l: "lookup h a = Some (PDict es)" and t: "denotes_entries F h es d"
    by (auto split: pyval.splits option.splits pyobj.splits)
  have "lookup h' a = Some (PDict es)"
    using "7.prems"(2) [OF v(2)] l by simp
  moreover have "denotes_entries G h' es d"
    using "7.IH" [OF v(1) l refl "7.prems"(1) _ t] "7.prems"(2) by simp
  ultimately show ?case using v "7.prems"(1) by auto
qed auto

lemma tree_denotes:
  "tree h v j lo \<Longrightarrow> denotes {lo..<lo + cells j} h v j"
  and tree_list_denotes:
  "tree_list h vs js lo \<Longrightarrow> denotes_list {lo..<lo + cells_list js} h vs js"
  and tree_entries_denotes:
  "tree_entries h es d lo \<Longrightarrow> denotes_entries {lo..<lo + cells_entries d} h es d"
proof (induction h v j lo and h vs js lo and h es d lo rule: tree_tree_list_tree_entries.induct)
  case (6 h v js lo)
  from "6.prems" obtain vs where l: "lookup h (lo + cells_list js) = Some (PList vs)"
    and v: "v = PRef (lo + cells_list js)" and t: "tree_list h vs js lo"
    by (auto split: option.splits pyobj.splits)
  from "6.IH" [OF l refl t] have "denotes_list {lo..<lo + cells (JArr js)} h vs js"
    by (rule denotes_list_frame [rotated 2]) auto
  with l v show ?case by simp
next
  case (7 h v d lo)
  from "7.prems" obtain es where l: "lookup h (lo + cells_entries d) = Some (PDict es)"
    and v: "v = PRef (lo + cells_entries d)" and t: "tree_entries h es d lo"
    by (auto split: option.splits pyobj.splits)
  from "7.IH" [OF l refl t] have "denotes_entries {lo..<lo + cells (JObj d)} h es d"
    by (rule denotes_entries_frame [rotated 2]) auto
  with l v show ?case by simp
next
  case (9 h v vs j js lo)
  from "9.prems" have t: "tree h v j lo" "tree_list h vs js (lo + cells j)"
    by simp_all
  from "9.IH"(1) [OF t(1)] have "denotes {lo..<lo + cells_list (j # js)} h v j"
    by (rule denotes_frame [rotated 2]) auto
  moreover from "9.IH"(2) [OF t(2)] have "denotes_list {lo..<lo + cells_list (j # js)} h vs js"
    by (rule denotes_list_frame [rotated 2]) auto
  ultimately show ?case by simp
next
  case (12 h k' v es k j d lo)
  from "12.prems" have t: "k' = k" "tree h v j lo" "tree_entries h es d (lo + cells j)"
    by simp_all
  from "12.IH"(1) [OF t(2)] have "denotes {lo..<lo + cells_entries ((k, j) # d)} h v j"
    by (rule denotes_frame [rotated 2]) auto
  moreover from "12.IH"(2) [OF t(3)]
  have "denotes_entries {lo..<lo + cells_entries ((k, j) # d)} h es d"
    by (rule denotes_entries_frame [rotated 2]) auto
  ultimately show ?case using t(1) by simp
qed auto

lemma denotes_entries_update:
  "denotes_entries F h es d \<Longrightarrow> denotes F h v j \<Longrightarrow>
     denotes_entries F h (AList.update k v es) (AList.update k j d)"
proof (induction es arbitrary: d)
  case Nil
  then show ?case by (cases d) auto
next
  case (Cons e es)
  then show ?case
    by (cases e; cases d) auto
qed

lemma denotes_entries_map_of:
  "denotes_entries F h es d \<Longrightarrow>
     (map_of d k = None \<longrightarrow> map_of es k = None)
     \<and> (\<forall>j. map_of d k = Some j \<longrightarrow> (\<exists>v. map_of es k = Some v \<and> denotes F h v j))"
proof (induction es arbitrary: d)
  case Nil
  then show ?case by (cases d) auto
next
  case (Cons e es)
  obtain k' v where e: "e = (k', v)" by (cases e)
  from Cons.prems e obtain j d' where d: "d = (k', j) # d'" "denotes F h v j"
    "denotes_entries F h es d'"
    by (cases d) auto
  from Cons.IH [OF d(3)] e d(1,2) show ?case
    by auto
qed

lemma lookup_update:
  "lookup (h[c := obj]) a = (if a = c \<and> c < length h then Some obj else lookup h a)"
  by (auto simp: lookup_def)

lemma lookup_append1:
  "lookup (h @ [obj]) a = (if a = length h then Some obj else lookup h a)"
  by (auto simp: lookup_def nth_append)

lemma lookup_Some_less: "lookup h a = Some obj \<Longrightarrow> a < length h"
  by (simp add: lookup_def split: if_splits)

lemma setitem_dict:
  "lookup h c = Some (PDict es) \<Longrightarrow> setitem h c k v = h[c := PDict (AList.update k v es)]"
  by (simp add: setitem_def)

lemma has_key_denotes: "denotes_entries F h es d \<Longrightarrow> has_key k es = has_key k d"
  using denotes_entries_map_of [of F h es d k]
  by (cases "map_of d k") (auto simp: has_key_def)

lemma message_dict_denotes:
  assumes "denotes_entries F h es d"
  shows "map_of d ''message'' = Some (JObj md) \<Longrightarrow>
           \<exists>m mes. map_of es ''message'' = Some (PRef m) \<and> message_dict h es = Some (m, mes)
             \<and> m \<in> F \<and> lookup h m = Some (PDict mes) \<and> denotes_entries F h mes md"
    and "(\<And>md. map_of d ''message'' \<noteq> Some (JObj md)) \<Longrightarrow> message_dict h es = None"
proof -
  note m = denotes_entries_map_of [OF assms, of "''message''"]
  {
    assume "map_of d ''message'' = Some (JObj md)"
    with m obtain v where "map_of es ''message'' = Some v" "denotes F h v (JObj md)"
      by blast
    then show "\<exists>m mes. map_of es ''message'' = Some (PRef m) \<and> message_dict h es = Some (m, mes)
             \<and> m \<in> F \<and> lookup h m = Some (PDict mes) \<and> denotes_entries F h mes md"
      by (auto simp: message_dict_def split: pyval.splits option.splits pyobj.splits)
  }
  {
    assume n: "\<And>md. map_of d ''message'' \<noteq> Some (JObj md)"
    show "message_dict h es = None"
    proof (cases "map_of d ''message''")
      case None
      with m show ?thesis by (simp add: message_dict_def)
    next
      case (Some j)
      with m obtain v where v: "map_of es ''message'' = Some v" "denotes F h v j"
        by blast
      from n Some have "\<And>md. j \<noteq> JObj md" by simp
      with v show ?thesis
        by (cases j) (auto simp: message_dict_def split: pyval.splits option.splits pyobj.splits)
    qed
  }
qed

lemma message_content_denotes:
  assumes "denotes_entries F h es d"
  shows "message_content d = None \<Longrightarrow> message_content_st h es = None"
    and "message_content d = Some content \<Longrightarrow>
           \<exists>cv. message_content_st h es = Some cv \<and> denotes F h cv content"
proof -
  {
    assume n: "message_content d = None"
    show "message_content_st h es = None"
    proof (cases "\<exists>md. map_of d ''message'' = Some (JObj md)")
      case True
      then obtain md where md: "map_of d ''message'' = Some (JObj md)" by blast
      from message_dict_denotes(1) [OF assms md] obtain m mes where
        m: "message_dict h es = Some (m, mes)" "denotes_entries F h mes md"
        by blast
      from n md have "map_of md ''content'' = None"
        by (simp add: message_content_def)
      with denotes_entries_map_of [OF m(2), of "''content''"] have "map_of mes ''content'' = None"
        by simp
      with m(1) show ?thesis by (simp add: message_content_st_def)
    next
      case False
      then have "message_dict h es = None"
        by (intro message_dict_denotes(2) [OF assms]) blast
      then show ?thesis by (simp add: message_content_st_def)
    qed
  }
  {
    assume s: "message_content d = Some content"
    then obtain md where md: "map_of d ''message'' = Some (JObj md)"
      "map_of md ''content'' = Some content"
      by (auto simp: message_content_def split: option.splits json.splits)
    from message_dict_denotes(1) [OF assms md(1)] obtain m mes where
      m: "message_dict h es = Some (m, mes)" "denotes_entries F h mes md"
      by blast
    from denotes_entries_map_of [OF m(2), of "''content''"] md(2)
    obtain cv where "map_of mes ''content'' = Some cv" "denotes F h cv content"
      by blast
    with m(1) show "\<exists>cv. message_content_st h es = Some cv \<and> denotes F h cv content"
      by (simp add: message_content_st_def)
  }
qed

lemma tree_entries_child:
  "tree_entries h es d lo \<Longrightarrow> map_of d k = Some j \<Longrightarrow>
     \<exists>v. map_of es k = Some v \<and> tree h v j (lo + offset k d)
       \<and> offset k d + cells j \<le> cells_entries d"
proof (induction es arbitrary: d lo)
  case Nil
  then show ?case by (cases d) auto
next
  case (Cons e es)
  obtain k' v where e: "e = (k', v)" by (cases e)
  from Cons.prems(1) e obtain j' d' where d: "d = (k', j') # d'" "tree h v j' lo"
    "tree_entries h es d' (lo + cells j')"
    by (cases d) auto
  show ?case
  proof (cases "k' = k")
    case True
    with Cons.prems(2) e d show ?thesis by simp
  next
    case False
    with Cons.prems(2) d(1) have "map_of d' k = Some j" by simp
    from Cons.IH [OF d(3) this] False e d(1) show ?thesis
      by (auto simp: add.assoc)
  qed
qed

text \<open>
  When a store differs from \<open>h\<close>, within the entries of a dict, only inside the part
  under the key \<open>k\<close>, the other entries still denote what they did, and the dict denotes
  the mapping with the new value under \<open>k\<close>.
\<close>

lemma tree_entries_sibling:
  assumes "tree_entries h es d lo"
    and "map_of d k = Some j"
    and "\<And>a. lo \<le> a \<Longrightarrow> a < lo + cells_entries d \<Longrightarrow>
           a < lo + offset k d \<or> lo + offset k d + cells j \<le> a \<Longrightarrow> lookup h' a = lookup h a"
    and "k2 \<noteq> k"
    and "map_of d k2 = Some j2"
  shows "\<exists>v2. map_of es k2 = Some v2 \<and> denotes {lo..<lo + cells_entries d} h' v2 j2"
  using assms
proof (induction es arbitrary: d lo)
  case Nil
  then show ?case by (cases d) auto
next
  case (Cons e es)
  obtain k' v where e: "e = (k', v)" by (cases e)
  from Cons.prems(1) e obtain j' d' where d: "d = (k', j') # d'" "tree h v j' lo"
    "tree_entries h es d' (lo + cells j')"
    by (cases d) auto
  show ?case
  proof (cases "k' = k")
    case True
    with Cons.prems(2) d(1) have j: "j' = j" by simp
    from True Cons.prems(4,5) d(1) have m2: "map_of d' k2 = Some j2" by simp
    have "denotes_entries {lo..<lo + cells_entries d} h' es d'"
    proof (rule denotes_entries_frame [OF _ _ tree_entries_denotes [OF d(3)]])
      show "{lo + cells j'..<lo + cells j' + cells_entries d'} \<subseteq> {lo..<lo + cells_entries d}"
        using d(1) by auto
    next
      fix a assume "a \<in> {lo + cells j'..<lo + cells j' + cells_entries d'}"
      with Cons.prems(3) [of a] True d(1) j show "lookup h' a = lookup h a"
        by auto
    qed
    from denotes_entries_map_of [OF this, of k2] m2 True Cons.prems(4) e show ?thesis
      by auto
  next
    case False
    with Cons.prems(2) d(1) have m: "map_of d' k = Some j" by simp
    have o: "offset k d = cells j' + offset k d'"
      using False d(1) by simp
    show ?thesis
    proof (cases "k' = k2")
      case True
      with Cons.prems(5) d(1) have j2: "j' = j2" by simp
      have "denotes {lo..<lo + cells_entries d} h' v j'"
      proof (rule denotes_frame [OF _ _ tree_denotes [OF d(2)]])
        show "{lo..<lo + cells j'} \<subseteq> {lo..<lo + cells_entries d}"
          using d(1) by auto
      next
        fix a assume "a \<in> {lo..<lo + cells j'}"
        with Cons.prems(3) [of a] o d(1) show "lookup h' a = lookup h a"
          by auto
      qed
      with True j2 e show ?thesis by simp
    next
      case k2: False
      with Cons.prems(5) d(1) have m2: "map_of d' k2 = Some j2" by simp
      have "\<exists>v2. map_of es k2 = Some v2
          \<and> denotes {lo + cells j'..<lo + cells j' + cells_entries d'} h' v2 j2"
      proof (rule Cons.IH [OF d(3) m _ Cons.prems(4) m2])
        fix a assume "lo + cells j' \<le> a" "a < lo + cells j' + cells_entries d'"
          "a < lo + cells j' + offset k d' \<or> lo + cells j' + offset k d' + cells j \<le> a"
        with Cons.prems(3) [of a] o d(1) show "lookup h' a = lookup h a"
          by (auto simp: add.assoc)
      qed
      then obtain v2 where v2: "map_of es k2 = Some v2"
        "denotes {lo + cells j'..<lo + cells j' + cells_entries d'} h' v2 j2"
        by blast
      from v2(2) have "denotes {lo..<lo + cells_entries d} h' v2 j2"
        by (rule denotes_frame [rotated 2]) (use d(1) in auto)
      with v2(1) k2 e show ?thesis by simp
    qed
  qed
qed

lemma tree_entries_replace:
  assumes "tree_entries h es d lo"
    and "map_of d k = Some j"
    and "\<And>a. lo \<le> a \<Longrightarrow> a < lo + cells_entries d \<Longrightarrow>
           a < lo + offset k d \<or> lo + offset k d + cells j \<le> a \<Longrightarrow> lookup h' a = lookup h a"
    and "map_of es k = Some v"
    and "{lo..<lo + cells_entries d} \<subseteq> F"
    and "denotes F h' v j'"
  shows "denotes_entries F h' es (AList.update k j' d)"
  using assms
proof (induction es arbitrary: d lo)
  case Nil
  then show ?case by (cases d) auto
next
  case (Cons e es)
  obtain k' w where e: "e = (k', w)" by (cases e)
  from Cons.prems(1) e obtain j0 d' where d: "d = (k', j0) # d'" "tree h w j0 lo"
    "tree_entries h es d' (lo + cells j0)"
    by (cases d) auto
  show ?case
  proof (cases "k' = k")
    case True
    with Cons.prems(2) d(1) have j: "j0 = j" by simp
    from True Cons.prems(4) e have w: "w = v" by simp
    have "denotes_entries F h' es d'"
    proof (rule denotes_entries_frame [OF _ _ tree_entries_denotes [OF d(3)]])
      show "{lo + cells j0..<lo + cells j0 + cells_entries d'} \<subseteq> F"
        using d(1) Cons.prems(5) by auto
    next
      fix a assume "a \<in> {lo + cells j0..<lo + cells j0 + cells_entries d'}"
      with Cons.prems(3) [of a] True d(1) j show "lookup h' a = lookup h a"
        by auto
    qed
    with True e d(1) w Cons.prems(6) show ?thesis by simp
  next
    case False
    with Cons.prems(2) d(1) have m: "map_of d' k = Some j" by simp
    from False Cons.prems(4) e have mv: "map_of es k = Some v" by simp
    have o: "offset k d = cells j0 + offset k d'"
      using False d(1) by simp
    have "denotes F h' w j0"
    proof (rule denotes_frame [OF _ _ tree_denotes [OF d(2)]])
      show "{lo..<lo + cells j0} \<subseteq> F"
        using d(1) Cons.prems(5) by auto
    next
      fix a assume "a \<in> {lo..<lo + cells j0}"
      with Cons.prems(3) [of a] o d(1) show "lookup h' a = lookup h a"
        by auto
    qed
    moreover have "denotes_entries F h' es (AList.update k j' d')"
    proof (rule Cons.IH [OF d(3) m _ mv _ Cons.prems(6)])
      fix a assume "lo + cells j0 \<le> a" "a < lo + cells j0 + cells_entries d'"
        "a < lo + cells j0 + offset k d' \<or> lo + cells j0 + offset k d' + cells j \<le> a"
      with Cons.prems(3) [of a] o d(1) show "lookup h' a = lookup h a"
        by (auto simp: add.assoc)
    next
      show "{lo + cells j0..<lo + cells j0 + cells_entries d'} \<subseteq> F"
        using d(1) Cons.prems(5) by auto
    qed
    ultimately show ?thesis
      using False e d(1) by simp
  qed
qed

lemma fix_choice_st_not_dict:
  "(\<And>c es. v = PRef c \<Longrightarrow> lookup h c \<noteq> Some (PDict es)) \<Longrightarrow> fix_choice_st v h = h"
  by (auto simp: fix_choice_st_def split: pyval.splits option.splits pyobj.splits)

text \<open>
  One pass of the loop body over a choice that is laid out as a tree: afterwards the
  choice denotes \<^const>\<open>fix_choice\<close> of its tree, and the store has changed only inside
  the choice and beyond its old end.
\<close>

lemma fix_choice_sim_dict:
  assumes t: "tree h v (JObj d) lo" and b: "lo + cells (JObj d) \<le> length h"
  shows "denotes ({lo..<lo + cells (JObj d)} \<union> {length h..<length (fix_choice_st v h)})
           (fix_choice_st v h) v (fix_choice (JObj d))
     \<and> length h \<le> length (fix_choice_st v h)
     \<and> (\<forall>a. a < lo \<or> lo + cells (JObj d) \<le> a \<longrightarrow> a < length h \<longrightarrow>
           lookup (fix_choice_st v h) a = lookup h a)"
proof -
  let ?c = "lo + cells_entries d"
  let ?I = "{lo..<?c}"
  from t obtain es where v: "v = PRef ?c" and lc: "lookup h ?c = Some (PDict es)"
    and te: "tree_entries h es d lo"
    by (auto split: option.splits pyobj.splits)
  from b have c: "?c < length h" by simp
  note D0 = tree_entries_denotes [OF te]
  have hk: "has_key k es = has_key k d" for k
    using D0 by (rule has_key_denotes)
  have keep: "denotes_entries F h' es d"
    if "?I \<subseteq> F" and "\<And>a. a \<in> ?I \<Longrightarrow> lookup h' a = lookup h a" for F h'
    using that D0 by (rule denotes_entries_frame)
  show ?thesis
  proof (cases "message_content d")
    case (Some content)
    from message_content_denotes(2) [OF D0 Some] obtain cv where
      cv: "message_content_st h es = Some cv" "denotes ?I h cv content"
      by blast
    show ?thesis
    proof (cases "has_key ''text'' d")
      case True
      with Some cv(1) lc v hk have "fix_choice_st v h = h" "fix_choice (JObj d) = JObj d"
        by (simp_all add: fix_choice_st_def)
      moreover have "denotes ({lo..<lo + cells (JObj d)} \<union> {}) h v (JObj d)"
        using tree_denotes [OF t] by simp
      ultimately show ?thesis by simp
    next
      case False
      let ?h' = "h[?c := PDict (AList.update ''text'' cv es)]"
      let ?F = "{lo..<lo + cells (JObj d)} \<union> {length h..<length ?h'}"
      from False Some cv(1) lc v hk have r: "fix_choice_st v h = ?h'"
        "fix_choice (JObj d) = JObj (AList.update ''text'' content d)"
        by (simp_all add: fix_choice_st_def setitem_dict)
      have fr: "lookup ?h' a = lookup h a" if "a \<in> ?I" for a
        using that by (simp add: lookup_update)
      have "denotes_entries ?F ?h' es d"
        by (rule keep) (auto simp: fr)
      moreover have "denotes ?F ?h' cv content"
        using _ fr cv(2) by (rule denotes_frame) auto
      ultimately have "denotes_entries ?F ?h' (AList.update ''text'' cv es)
          (AList.update ''text'' content d)"
        by (rule denotes_entries_update)
      then have "denotes ?F ?h' v (JObj (AList.update ''text'' content d))"
        using v c by (simp add: lookup_update)
      moreover have "\<forall>a. a < lo \<or> lo + cells (JObj d) \<le> a \<longrightarrow> a < length h \<longrightarrow>
          lookup ?h' a = lookup h a"
        by (auto simp: lookup_update)
      ultimately show ?thesis
        unfolding r by simp
    qed
  next
    case None
    from message_content_denotes(1) [OF D0 None] have mc: "message_content_st h es = None" .
    show ?thesis
    proof (cases "map_of d ''text''")
      case nt: None
      with denotes_entries_map_of [OF D0, of "''text''"] have nts: "map_of es ''text'' = None"
        by simp
      let ?n = "length h"
      let ?nd = "PDict [(''role'', PStr ''assistant''), (''content'', PStr empty_content)]"
      let ?es' = "AList.update ''message'' (PRef ?n) (AList.update ''text'' (PStr empty_content) es)"
      let ?h' = "(h[?c := PDict (AList.update ''text'' (PStr empty_content) es)] @ [?nd])
                   [?c := PDict ?es']"
      let ?j' = "JObj (AList.update ''message''
                       (JObj [(''role'', JStr ''assistant''), (''content'', JStr empty_content)])
                       (AList.update ''text'' (JStr empty_content) d))"
      let ?F = "{lo..<lo + cells (JObj d)} \<union> {length h..<length ?h'}"
      have l1: "lookup (h[?c := PDict (AList.update ''text'' (PStr empty_content) es)] @ [?nd]) ?c
          = Some (PDict (AList.update ''text'' (PStr empty_content) es))"
        using c by (simp add: lookup_append1 lookup_update)
      from None mc nt nts lc v have r: "fix_choice_st v h = ?h'" "fix_choice (JObj d) = ?j'"
        by (simp_all add: fix_choice_st_def setitem_dict alloc_def l1)
      have fr: "lookup ?h' a = lookup h a" if "a \<in> ?I" for a
        using that c by (simp add: lookup_update lookup_append1)
      have "denotes_entries ?F ?h' es d"
        by (rule keep) (auto simp: fr)
      then have "denotes_entries ?F ?h' (AList.update ''text'' (PStr empty_content) es)
          (AList.update ''text'' (JStr empty_content) d)"
        by (rule denotes_entries_update) simp
      moreover have "denotes ?F ?h' (PRef ?n)
          (JObj [(''role'', JStr ''assistant''), (''content'', JStr empty_content)])"
        using c by (simp add: lookup_update lookup_append1)
      ultimately have "denotes_entries ?F ?h' ?es' (AList.update ''message''
          (JObj [(''role'', JStr ''assistant''), (''content'', JStr empty_content)])
          (AList.update ''text'' (JStr empty_content) d))"
        by (rule denotes_entries_update)
      then have "denotes ?F ?h' v ?j'"
        using v c by (simp add: lookup_update)
      moreover have "\<forall>a. a < lo \<or> lo + cells (JObj d) \<le> a \<longrightarrow> a < length h \<longrightarrow>
          lookup ?h' a = lookup h a"
        by (auto simp: lookup_update lookup_append1)
      ultimately show ?thesis
        unfolding r by simp
    next
      case (Some tx)
      with denotes_entries_map_of [OF D0, of "''text''"] obtain tv where
        tv: "map_of es ''text'' = Some tv" "denotes ?I h tv tx"
        by blast
      show ?thesis
      proof (cases "\<exists>md. map_of d ''message'' = Some (JObj md)")
        case False
        then have nm: "\<And>md. map_of d ''message'' \<noteq> Some (JObj md)" by blast
        from message_dict_denotes(2) [OF D0 nm] have md: "message_dict h es = None" .
        let ?n = "length h"
        let ?nd = "PDict [(''role'', PStr ''assistant''), (''content'', tv)]"
        let ?es' = "AList.update ''message'' (PRef ?n) es"
        let ?h' = "(h @ [?nd])[?c := PDict ?es']"
        let ?m' = "JObj [(''role'', JStr ''assistant''), (''content'', tx)]"
        let ?j' = "JObj (AList.update ''message'' ?m' d)"
        let ?F = "{lo..<lo + cells (JObj d)} \<union> {length h..<length ?h'}"
        have l1: "lookup (h @ [?nd]) ?c = Some (PDict es)"
          using c lc by (simp add: lookup_append1)
        from None mc Some tv(1) md lc v have r1: "fix_choice_st v h = ?h'"
          by (simp add: fix_choice_st_def setitem_dict alloc_def l1)
        from None Some nm have r2: "fix_choice (JObj d) = ?j'"
          by (auto split: option.splits json.splits)
        have fr: "lookup ?h' a = lookup h a" if "a \<in> ?I" for a
          using that c by (simp add: lookup_update lookup_append1)
        have e: "denotes_entries ?F ?h' es d"
          by (rule keep) (auto simp: fr)
        have "denotes ?F ?h' tv tx"
          using _ fr tv(2) by (rule denotes_frame) auto
        then have "denotes ?F ?h' (PRef ?n) ?m'"
          using c by (simp add: lookup_update lookup_append1)
        with e have "denotes_entries ?F ?h' ?es' (AList.update ''message'' ?m' d)"
          by (rule denotes_entries_update)
        then have "denotes ?F ?h' v ?j'"
          using v c by (simp add: lookup_update)
        moreover have "\<forall>a. a < lo \<or> lo + cells (JObj d) \<le> a \<longrightarrow> a < length h \<longrightarrow>
            lookup ?h' a = lookup h a"
          by (auto simp: lookup_update lookup_append1)
        ultimately show ?thesis
          unfolding r1 r2 by simp
      next
        case True
        then obtain md where md: "map_of d ''message'' = Some (JObj md)" by blast
        from message_dict_denotes(1) [OF D0 md] obtain m mes where
          m: "map_of es ''message'' = Some (PRef m)" "message_dict h es = Some (m, mes)"
          "lookup h m = Some (PDict mes)"
          by blast
        from tree_entries_child [OF te md] m(1) have
          tm: "tree h (PRef m) (JObj md) (lo + offset ''message'' d)"
          and om: "offset ''message'' d + cells (JObj md) \<le> cells_entries d"
          by auto
        let ?lm = "lo + offset ''message'' d"
        from tm m(3) have meq: "m = ?lm + cells_entries md" and tme: "tree_entries h mes md ?lm"
          by (auto split: option.splits pyobj.splits)
        from om meq have mlt: "m < ?c" "lo \<le> m" by simp_all
        from None md have nc: "map_of md ''content'' = None"
          by (simp add: message_content_def)
        with has_key_denotes [OF tree_entries_denotes [OF tme], of "''content''"]
        have ncs: "\<not> has_key ''content'' mes" "\<not> has_key ''content'' md"
          by (simp_all add: has_key_def)
        let ?mes' = "AList.update ''content'' tv mes"
        let ?h' = "h[m := PDict ?mes']"
        let ?m' = "JObj (AList.update ''content'' tx md)"
        let ?j' = "JObj (AList.update ''message'' ?m' d)"
        let ?F = "{lo..<lo + cells (JObj d)} \<union> {length h..<length ?h'}"
        from None mc Some tv(1) m(2,3) ncs(1) lc v have r1: "fix_choice_st v h = ?h'"
          by (simp add: fix_choice_st_def setitem_dict)
        from None Some md ncs(2) have r2: "fix_choice (JObj d) = ?j'"
          by simp
        have fr: "lookup ?h' a = lookup h a" if "a \<noteq> m" for a
          using that by (simp add: lookup_update)
        have sib: "lookup ?h' a = lookup h a"
          if "lo \<le> a" "a < lo + cells_entries d"
            "a < lo + offset ''message'' d \<or> lo + offset ''message'' d + cells (JObj md) \<le> a" for a
          using that(3) meq by (intro fr) auto
        from tree_entries_sibling [OF te md sib _ Some] tv(1)
        have "denotes {lo..<lo + cells_entries d} ?h' tv tx"
          by auto
        then have tv': "denotes ?F ?h' tv tx"
          by (rule denotes_frame [rotated 2]) auto
        have "denotes_entries ?F ?h' mes md"
        proof (rule denotes_entries_frame [OF _ _ tree_entries_denotes [OF tme]])
          show "{?lm..<?lm + cells_entries md} \<subseteq> ?F"
            using om by auto
        next
          fix a assume "a \<in> {?lm..<?lm + cells_entries md}"
          with meq show "lookup ?h' a = lookup h a"
            by (intro fr) auto
        qed
        from this tv' have "denotes_entries ?F ?h' ?mes' (AList.update ''content'' tx md)"
          by (rule denotes_entries_update)
        then have dm: "denotes ?F ?h' (PRef m) ?m'"
          using mlt c by (simp add: lookup_update)
        have "denotes_entries ?F ?h' es (AList.update ''message'' ?m' d)"
          using te md sib m(1) _ dm by (rule tree_entries_replace) auto
        then have "denotes ?F ?h' v ?j'"
          using v lc mlt by (simp add: lookup_update)
        moreover have "\<forall>a. a < lo \<or> lo + cells (JObj d) \<le> a \<longrightarrow> a < length h \<longrightarrow>
            lookup ?h' a = lookup h a"
          using mlt by (auto simp: lookup_update)
        ultimately show ?thesis
          unfolding r1 r2 by simp
      qed
    qed
  qed
qed

lemma fix_choice_sim:
  assumes t: "tree h v j lo" and b: "lo + cells j \<le> length h"
  shows "denotes ({lo..<lo + cells j} \<union> {length h..<length (fix_choice_st v h)})
           (fix_choice_st v h) v (fix_choice j)
     \<and> length h \<le> length (fix_choice_st v h)
     \<and> (\<forall>a. a < lo \<or> lo + cells j \<le> a \<longrightarrow> a < length h \<longrightarrow>
           lookup (fix_choice_st v h) a = lookup h a)"
proof (cases "is_dict j")
  case True
  then obtain d where "j = JObj d" by (cases j) simp_all
  with t b show ?thesis
    using fix_choice_sim_dict [of h v d lo] by simp
next
  case False
  with t have "fix_choice_st v h = h"
    by (intro fix_choice_st_not_dict; cases j) (auto split: option.splits pyobj.splits)
  moreover from False have "fix_choice j = j"
    by (cases j) simp_all
  moreover have "denotes ({lo..<lo + cells j} \<union> {}) h v j"
    using tree_denotes [OF t] by simp
  ultimately show ?thesis by simp
qed

lemma fold_sim:
  "tree_list h vs js lo \<Longrightarrow> lo + cells_list js \<le> length h \<Longrightarrow>
     denotes_list ({lo..<lo + cells_list js} \<union> {length h..<length (fold fix_choice_st vs h)})
       (fold fix_choice_st vs h) vs (map fix_choice js)
     \<and> length h \<le> length (fold fix_choice_st vs h)
     \<and> (\<forall>a. a < lo \<or> lo + cells_list js \<le> a \<longrightarrow> a < length h \<longrightarrow>
           lookup (fold fix_choice_st vs h) a = lookup h a)"
proof (induction vs arbitrary: js lo h)
  case Nil
  then show ?case by (cases js) auto
next
  case (Cons v vs)
  from Cons.prems(1) obtain j js' where js: "js = j # js'" and t1: "tree h v j lo"
    and t2: "tree_list h vs js' (lo + cells j)"
    by (cases js) auto
  let ?h1 = "fix_choice_st v h"
  let ?h2 = "fold fix_choice_st vs ?h1"
  let ?lo' = "lo + cells j"
  from Cons.prems(2) js have b1: "lo + cells j \<le> length h" and b2: "?lo' + cells_list js' \<le> length h"
    by simp_all
  from fix_choice_sim [OF t1 b1] have
    d1: "denotes ({lo..<lo + cells j} \<union> {length h..<length ?h1}) ?h1 v (fix_choice j)"
    and l1: "length h \<le> length ?h1"
    and f1: "\<And>a. a < lo \<or> lo + cells j \<le> a \<Longrightarrow> a < length h \<Longrightarrow> lookup ?h1 a = lookup h a"
    by blast+
  have t2': "tree_list ?h1 vs js' ?lo'"
    using _ t2
  proof (rule tree_list_frame)
    fix a assume "?lo' \<le> a" "a < ?lo' + cells_list js'"
    with b2 show "lookup ?h1 a = lookup h a"
      by (intro f1) auto
  qed
  from b2 l1 have b2': "?lo' + cells_list js' \<le> length ?h1" by simp
  from Cons.IH [OF t2' b2'] have
    d2: "denotes_list ({?lo'..<?lo' + cells_list js'} \<union> {length ?h1..<length ?h2}) ?h2 vs
           (map fix_choice js')"
    and l2: "length ?h1 \<le> length ?h2"
    and f2: "\<And>a. a < ?lo' \<or> ?lo' + cells_list js' \<le> a \<Longrightarrow> a < length ?h1 \<Longrightarrow>
           lookup ?h2 a = lookup ?h1 a"
    by blast+
  let ?F = "{lo..<lo + cells_list js} \<union> {length h..<length ?h2}"
  have "denotes ?F ?h2 v (fix_choice j)"
    using _ _ d1
  proof (rule denotes_frame)
    show "{lo..<lo + cells j} \<union> {length h..<length ?h1} \<subseteq> ?F"
      using js l2 by auto
  next
    fix a assume "a \<in> {lo..<lo + cells j} \<union> {length h..<length ?h1}"
    with b1 b2 l1 show "lookup ?h2 a = lookup ?h1 a"
      by (intro f2) auto
  qed
  moreover have "denotes_list ?F ?h2 vs (map fix_choice js')"
    using _ _ d2
  proof (rule denotes_list_frame)
    show "{?lo'..<?lo' + cells_list js'} \<union> {length ?h1..<length ?h2} \<subseteq> ?F"
      using js l1 by (auto simp: add.assoc)
  qed simp
  moreover have "lookup ?h2 a = lookup h a" if "a < lo \<or> lo + cells_list js \<le> a" "a < length h" for a
  proof -
    from that js l1 have "lookup ?h2 a = lookup ?h1 a"
      by (intro f2) (auto simp: add.assoc)
    also from that js have "\<dots> = lookup h a"
      by (intro f1) auto
    finally show ?thesis .
  qed
  ultimately show ?case
    using js l1 l2 by simp
qed

lemma fold_skip:
  "(\<And>x h. x \<in> set items \<Longrightarrow> fix_choice_st x h = h) \<Longrightarrow> fold fix_choice_st items h = h"
  by (induction items arbitrary: h) simp_all

lemma fix_choice_st_str: "fix_choice_st (PStr s) h = h"
  by (simp add: fix_choice_st_def)

lemma tree_list_empty: "tree_list h vs js lo \<Longrightarrow> (vs = []) = (js = [])"
  by (cases vs; cases js) simp_all

lemma tree_entries_empty: "tree_entries h es d lo \<Longrightarrow> (es = []) = (d = [])"
  by (cases es; cases d) auto

lemma truthy_tree: "tree h v j lo \<Longrightarrow> truthy_st h v = truthy j"
  by (cases j) (auto split: option.splits pyobj.splits dest: tree_list_empty tree_entries_empty)

text \<open>On a tree in the store the debug statement fails as it does on the value.\<close>

lemma dumps_error_st_scalar: "(\<And>a. v \<noteq> PRef a) \<Longrightarrow> (\<And>i. v \<noteq> PInt i) \<Longrightarrow> dumps_error_st n h v = None"
  by (cases v; cases n) auto

lemma tree_dumps_error:
  "tree h v j lo \<Longrightarrow> cells j \<le> n \<Longrightarrow> dumps_error_st n h v = dumps_error j"
  and tree_list_dumps_error:
  "tree_list h vs js lo \<Longrightarrow> cells_list js \<le> n \<Longrightarrow>
     map (dumps_error_st n h) vs = dumps_error_list js"
  and tree_entries_dumps_error:
  "tree_entries h es d lo \<Longrightarrow> cells_entries d \<le> n \<Longrightarrow>
     map (\<lambda>kv. dumps_error_st n h (snd kv)) es = dumps_error_entries d"
proof (induction h v j lo and h vs js lo and h es d lo arbitrary: n and n and n
    rule: tree_tree_list_tree_entries.induct)
  case (6 h v js lo)
  from "6.prems"(1) obtain vs where l: "lookup h (lo + cells_list js) = Some (PList vs)"
    and v: "v = PRef (lo + cells_list js)" and t: "tree_list h vs js lo"
    by (auto split: option.splits pyobj.splits)
  from "6.prems"(2) obtain n' where n: "n = Suc n'" "cells_list js \<le> n'"
    by (cases n) simp_all
  from "6.IH" [OF l refl t n(2)] l v n(1) show ?case by simp
next
  case (7 h v d lo)
  from "7.prems"(1) obtain es where l: "lookup h (lo + cells_entries d) = Some (PDict es)"
    and v: "v = PRef (lo + cells_entries d)" and t: "tree_entries h es d lo"
    by (auto split: option.splits pyobj.splits)
  from "7.prems"(2) obtain n' where n: "n = Suc n'" "cells_entries d \<le> n'"
    by (cases n) simp_all
  from "7.IH" [OF l refl t n(2)] l v n(1) show ?case by simp
qed (auto simp: dumps_error_st_scalar)

lemma update_swap:
  "map_of al k \<noteq> None \<Longrightarrow> k \<noteq> k' \<Longrightarrow>
     AList.update k v (AList.update k' v' al) = AList.update k' v' (AList.update k v al)"
  by (induction al) auto

lemma is_Exception_all: "is_Exception e"
  by (cases e) simp_all

lemma transform_response_st_raises:
  assumes "lookup h c = Some (PDict es)" and "\<not> has_key sentinel es"
    and "dumps_error_st (length h) h (PRef c) = Some e"
  shows "transform_response_st h (PRef c) = (h, Inl e)"
  using assms by (simp add: transform_response_st_def)

lemma transform_response_st_unmarked:
  assumes "lookup h c = Some (PDict es)" and "\<not> has_key sentinel es"
    and "dumps_error_st (length h) h (PRef c) = None"
  shows "transform_response_st h (PRef c) =
     (case transform_body_st (h @ [PDict (AList.update sentinel (PBool True) es)]) (length h) of
        (h3, Inr x) \<Rightarrow> (h3, Inr x)
      | (h3, Inl e) \<Rightarrow> (h3, Inr (PRef c)))"
  using assms
  by (simp add: transform_response_st_def alloc_def copy_marked is_Exception_all
      split: prod.splits sum.splits)

lemma transform_body_st_copy:
  "transform_body_st (h @ [PDict (AList.update sentinel (PBool True) es)]) (length h) =
     (case map_of es ''choices'' of
        None \<Rightarrow> (h @ [PDict (AList.update sentinel (PBool True) es)], Inr (PRef (length h)))
      | Some cv \<Rightarrow>
          if \<not> truthy_st (h @ [PDict (AList.update sentinel (PBool True) es)]) cv
          then (h @ [PDict (AList.update sentinel (PBool True) es)], Inr (PRef (length h)))
          else
            (case iter_st (h @ [PDict (AList.update sentinel (PBool True) es)]) cv of
               Inl e \<Rightarrow> (h @ [PDict (AList.update sentinel (PBool True) es)], Inl e)
             | Inr items \<Rightarrow>
                 (fold fix_choice_st items (h @ [PDict (AList.update sentinel (PBool True) es)]),
                  Inr (PRef (length h)))))"
  by (simp add: transform_body_st_def lookup_append1 map_of_update sentinel_not_choices
      split: option.splits)

text \<open>
  The whole function on a tree in the store, where the debug statement succeeds: it
  returns, the returned reference denotes the value that the transformer on values
  returns, and the input reference denotes the input with the elements of \<^verbatim>\<open>choices\<close>
  normalized and without the mark.
\<close>

lemma transform_response_st_tree_returns:
  assumes t: "tree h v r lo" and b: "lo + cells r \<le> length h" and ok: "dumps_error r = None"
  shows "\<exists>h' out j. transform_response_st h v = (h', Inr out)
           \<and> transform_response r = Inr j
           \<and> denotes UNIV h' out j
           \<and> denotes UNIV h' v (input_after r)"
proof (cases "\<exists>d. r = JObj d \<and> \<not> has_key sentinel d")
  case False
  have same: "denotes UNIV h v r"
    using tree_denotes [OF t] by (rule denotes_frame [rotated 2]) auto
  have "transform_response_st h v = (h, Inr v) \<and> transform_response r = Inr r
      \<and> input_after r = r"
  proof (cases r)
    case (JObj d)
    with False have m: "has_key sentinel d" by simp
    from t JObj obtain es where v: "v = PRef (lo + cells_entries d)"
      and lc: "lookup h (lo + cells_entries d) = Some (PDict es)"
      and te: "tree_entries h es d lo"
      by (auto split: option.splits pyobj.splits)
    from has_key_denotes [OF tree_entries_denotes [OF te], of sentinel] m
    have "has_key sentinel es" by simp
    with v lc m JObj show ?thesis
      by (simp add: transform_response_st_def transform_response_marked input_after_def)
  qed (use t in \<open>auto simp: transform_response_st_def transform_response_def input_after_def
        split: option.splits pyobj.splits\<close>)
  with same show ?thesis by auto
next
  case True
  then obtain d where r: "r = JObj d" and nm: "\<not> has_key sentinel d" by blast
  let ?c = "lo + cells_entries d"
  from t r obtain es where v: "v = PRef ?c" and lc: "lookup h ?c = Some (PDict es)"
    and te: "tree_entries h es d lo"
    by (auto split: option.splits pyobj.splits)
  from b r have c: "?c < length h" by simp
  note D0 = tree_entries_denotes [OF te]
  from has_key_denotes [OF D0, of sentinel] nm have nms: "\<not> has_key sentinel es" by simp
  from b have "cells r \<le> length h" by simp
  from tree_dumps_error [OF t this] v ok
  have nc: "dumps_error_st (length h) h (PRef ?c) = None" by simp
  let ?t = "length h"
  let ?est = "AList.update sentinel (PBool True) es"
  let ?h2 = "h @ [PDict ?est]"
  let ?marked = "AList.update sentinel (JBool True) d"
  note st = transform_response_st_unmarked [OF lc nms nc, unfolded transform_body_st_copy]
  from ok r have okd: "dumps_error (JObj d) = None" by simp
  note pure = transform_response_unmarked [OF nm okd]
  have f2: "lookup ?h2 a = lookup h a" if "a < length h" for a
    using that by (simp add: lookup_append1)
  have E2: "denotes_entries UNIV ?h2 es d"
    using _ _ D0 by (rule denotes_entries_frame) (use c in \<open>auto simp: f2\<close>)
  have V2: "denotes UNIV ?h2 v r"
    using E2 v r lc c by (simp add: f2)
  have C2: "denotes UNIV ?h2 (PRef ?t) (JObj ?marked)"
    using denotes_entries_update [OF E2, of "PBool True" "JBool True" sentinel]
    by (simp add: lookup_append1)
  have concl: ?thesis
    if "transform_response_st h v = (h', Inr out)" "transform_response r = Inr j"
      "denotes UNIV h' out j" "denotes UNIV h' v (input_after r)" for h' out j
    using that by blast
  have V2': "denotes UNIV ?h2 v (input_after r)" if "input_after r = r"
    using V2 that by simp
  show ?thesis
  proof (cases "map_of d ''choices''")
    case None
    with denotes_entries_map_of [OF D0, of "''choices''"] have "map_of es ''choices'' = None"
      by simp
    with st v have run: "transform_response_st h v = (?h2, Inr (PRef ?t))"
      by simp
    from None pure r have val: "transform_response r = Inr (JObj ?marked)"
      by simp
    have "input_after r = r"
      using None r nm okd by (simp add: input_after_def)
    from run val C2 V2' [OF this] show ?thesis
      by (rule concl)
  next
    case (Some cj)
    from tree_entries_child [OF te Some] obtain cv where cv: "map_of es ''choices'' = Some cv"
      and tc: "tree h cv cj (lo + offset ''choices'' d)"
      and oc: "offset ''choices'' d + cells cj \<le> cells_entries d"
      by blast
    let ?lc = "lo + offset ''choices'' d"
    have tc2: "tree ?h2 cv cj ?lc"
      using _ tc by (rule tree_frame) (use oc c in \<open>auto simp: f2\<close>)
    note tr = truthy_tree [OF tc2]
    show ?thesis
    proof (cases "truthy cj")
      case False
      have "input_after r = r"
      proof (cases cj)
        case (JArr cs)
        with False have "cs = []" by simp
        with JArr Some r nm show ?thesis
          by (simp add: input_after_def update_triv)
      qed (use Some r nm okd in \<open>simp_all add: input_after_def\<close>)
      note ia = this
      from False cv tr st v have run: "transform_response_st h v = (?h2, Inr (PRef ?t))"
        by simp
      from False Some pure r have val: "transform_response r = Inr (JObj ?marked)"
        by simp
      from run val C2 V2' [OF ia] show ?thesis
        by (rule concl)
    next
      case True
      show ?thesis
      proof (cases cj)
        case (JArr cs)
        let ?l = "?lc + cells_list cs"
        from tc2 JArr obtain vs where cvl: "cv = PRef ?l" and ll: "lookup ?h2 ?l = Some (PList vs)"
          and tl: "tree_list ?h2 vs cs ?lc"
          by (auto split: option.splits pyobj.splits)
        from oc JArr c have bl: "?lc + cells_list cs \<le> length ?h2" "?l < ?c"
          by simp_all
        let ?h3 = "fold fix_choice_st vs ?h2"
        let ?X = "JArr (map fix_choice cs)"
        from fold_sim [OF tl bl(1)] have
          dl: "denotes_list ({?lc..<?lc + cells_list cs} \<union> {length ?h2..<length ?h3}) ?h3 vs
                 (map fix_choice cs)"
          and l3: "length ?h2 \<le> length ?h3"
          and f3: "\<And>a. a < ?lc \<or> ?lc + cells_list cs \<le> a \<Longrightarrow> a < length ?h2 \<Longrightarrow> lookup ?h3 a = lookup ?h2 a"
          by blast+
        from True JArr Some cv cvl ll tr st have run: "transform_response_st h v = (?h3, Inr (PRef ?t))"
          using v by simp
        from True JArr Some pure r have val: "transform_response r
            = Inr (JObj (AList.update ''choices'' ?X ?marked))"
          by simp
        have ia: "input_after r = JObj (AList.update ''choices'' ?X d)"
          using JArr Some r nm okd by (simp add: input_after_def)
        have "denotes_list UNIV ?h3 vs (map fix_choice cs)"
          using _ _ dl by (rule denotes_list_frame) auto
        moreover have "lookup ?h3 ?l = Some (PList vs)"
          using f3 [of ?l] ll bl c by simp
        ultimately have DX: "denotes UNIV ?h3 cv ?X"
          using cvl by simp
        have ER: "denotes_entries UNIV ?h3 es (AList.update ''choices'' ?X d)"
          using te Some _ cv _ DX
        proof (rule tree_entries_replace)
          fix a assume a: "lo \<le> a" "a < lo + cells_entries d"
            "a < ?lc \<or> ?lc + cells cj \<le> a"
          with JArr c have "lookup ?h3 a = lookup ?h2 a"
            by (intro f3) auto
          with a c show "lookup ?h3 a = lookup h a"
            by (simp add: f2)
        qed simp
        have "lookup ?h3 ?c = lookup ?h2 ?c"
          using bl c by (intro f3) auto
        with lc c have l3c: "lookup ?h3 ?c = Some (PDict es)"
          by (simp add: f2)
        have "lookup ?h3 ?t = lookup ?h2 ?t"
          using bl c by (intro f3) auto
        then have l3t: "lookup ?h3 ?t = Some (PDict ?est)"
          by (simp add: lookup_append1)
        have "denotes_entries UNIV ?h3 ?est (AList.update sentinel (JBool True)
            (AList.update ''choices'' ?X d))"
          using ER by (rule denotes_entries_update) simp
        moreover have "AList.update ''choices'' ?X ?marked
            = AList.update sentinel (JBool True) (AList.update ''choices'' ?X d)"
          using Some by (intro update_swap) (simp_all add: sentinel_not_choices)
        ultimately have "denotes UNIV ?h3 (PRef ?t) (JObj (AList.update ''choices'' ?X ?marked))"
          using l3t by simp
        moreover have "denotes UNIV ?h3 v (input_after r)"
          using ER l3c v ia by simp
        ultimately show ?thesis
          using run val by (intro concl)
      next
        case (JStr s)
        with tc2 have cvs: "cv = PStr s" by simp
        have "fold fix_choice_st (map (\<lambda>c. PStr [c]) s) ?h2 = ?h2"
          by (rule fold_skip) (auto simp: fix_choice_st_str)
        with True JStr Some cv cvs tr st have run: "transform_response_st h v = (?h2, Inr (PRef ?t))"
          using v by simp
        have "AList.update ''choices'' (JStr s) ?marked = ?marked"
          using Some JStr by (intro update_triv) (simp add: map_of_update sentinel_not_choices)
        with True JStr Some pure r have val: "transform_response r = Inr (JObj ?marked)"
          by simp
        have "input_after r = r"
          using JStr Some r nm okd by (simp add: input_after_def)
        from run val C2 V2' [OF this] show ?thesis
          by (rule concl)
      next
        case (JObj dd)
        let ?a = "?lc + cells_entries dd"
        from tc2 JObj obtain ees where cvd: "cv = PRef ?a" and la: "lookup ?h2 ?a = Some (PDict ees)"
          by (auto split: option.splits pyobj.splits)
        have "fold fix_choice_st (map (\<lambda>kv. PStr (fst kv)) ees) ?h2 = ?h2"
          by (rule fold_skip) (auto simp: fix_choice_st_str)
        with True JObj Some cv cvd la tr st have run: "transform_response_st h v = (?h2, Inr (PRef ?t))"
          using v by simp
        have "AList.update ''choices'' (JObj dd) ?marked = ?marked"
          using Some JObj by (intro update_triv) (simp add: map_of_update sentinel_not_choices)
        with True JObj Some pure r have val: "transform_response r = Inr (JObj ?marked)"
          by simp
        have "input_after r = r"
          using JObj Some r nm okd by (simp add: input_after_def)
        from run val C2 V2' [OF this] show ?thesis
          by (rule concl)
      next
        case JNull
        with True show ?thesis by simp
      next
        case (JBool x)
        with tc2 have "cv = PBool x" by simp
        with True JBool Some cv tr st have run: "transform_response_st h v = (?h2, Inr v)"
          using v by simp
        from True JBool Some pure r have val: "transform_response r = Inr r"
          by simp
        have "input_after r = r"
          using JBool Some r nm okd by (simp add: input_after_def)
        from V2' [OF this] have "denotes UNIV ?h2 v (input_after r)" .
        with run val V2 show ?thesis
          by (intro concl)
      next
        case (JInt x)
        with tc2 have "cv = PInt x" by simp
        with True JInt Some cv tr st have run: "transform_response_st h v = (?h2, Inr v)"
          using v by simp
        from True JInt Some pure r have val: "transform_response r = Inr r"
          by simp
        have "input_after r = r"
          using JInt Some r nm okd by (simp add: input_after_def)
        from V2' [OF this] have "denotes UNIV ?h2 v (input_after r)" .
        with run val V2 show ?thesis
          by (intro concl)
      next
        case (JFloat x)
        with tc2 have "cv = PFloat x" by simp
        with True JFloat Some cv tr st have run: "transform_response_st h v = (?h2, Inr v)"
          using v by simp
        from True JFloat Some pure r have val: "transform_response r = Inr r"
          by simp
        have "input_after r = r"
          using JFloat Some r nm okd by (simp add: input_after_def)
        from V2' [OF this] have "denotes UNIV ?h2 v (input_after r)" .
        with run val V2 show ?thesis
          by (intro concl)
      qed
    qed
  qed
qed

text \<open>
  The two readings of the function agree on every tree in the store: where the one
  raises, the other raises the same exception and leaves the store as it is; where the
  one returns a value, the other returns a reference that denotes it.
\<close>

theorem transform_response_st_tree:
  assumes t: "tree h v r lo" and b: "lo + cells r \<le> length h"
  shows "(\<exists>e. transform_response r = Inl e \<and> transform_response_st h v = (h, Inl e))
       \<or> (\<exists>h' out j. transform_response_st h v = (h', Inr out)
             \<and> transform_response r = Inr j
             \<and> denotes UNIV h' out j
             \<and> denotes UNIV h' v (input_after r))"
proof (cases "\<exists>d e. r = JObj d \<and> \<not> has_key sentinel d \<and> dumps_error r = Some e")
  case True
  then obtain d e where r: "r = JObj d" and nm: "\<not> has_key sentinel d"
    and e: "dumps_error r = Some e"
    by blast
  let ?c = "lo + cells_entries d"
  from t r obtain es where v: "v = PRef ?c" and lc: "lookup h ?c = Some (PDict es)"
    and te: "tree_entries h es d lo"
    by (auto split: option.splits pyobj.splits)
  from has_key_denotes [OF tree_entries_denotes [OF te], of sentinel] nm
  have nms: "\<not> has_key sentinel es" by simp
  from b have "cells r \<le> length h" by simp
  from tree_dumps_error [OF t this] v e
  have "dumps_error_st (length h) h (PRef ?c) = Some e" by simp
  from transform_response_st_raises [OF lc nms this] v
  have "transform_response_st h v = (h, Inl e)" by simp
  moreover from r nm e have "transform_response r = Inl e"
    by (simp add: transform_response_raises)
  ultimately show ?thesis by blast
next
  case False
  show ?thesis
  proof (cases "dumps_error r")
    case None
    from transform_response_st_tree_returns [OF t b None] show ?thesis
      by blast
  next
    case (Some e)
    with False have m: "\<not> is_dict r \<or> (\<exists>d. r = JObj d \<and> has_key sentinel d)"
      by (cases r) auto
    have same: "denotes UNIV h v r"
      using tree_denotes [OF t] by (rule denotes_frame [rotated 2]) auto
    have "transform_response_st h v = (h, Inr v) \<and> transform_response r = Inr r
        \<and> input_after r = r"
    proof (cases r)
      case (JObj d)
      with m have mk: "has_key sentinel d" by simp
      from t JObj obtain es where v: "v = PRef (lo + cells_entries d)"
        and lc: "lookup h (lo + cells_entries d) = Some (PDict es)"
        and te: "tree_entries h es d lo"
        by (auto split: option.splits pyobj.splits)
      from has_key_denotes [OF tree_entries_denotes [OF te], of sentinel] mk
      have "has_key sentinel es" by simp
      with v lc mk JObj show ?thesis
        by (simp add: transform_response_st_def transform_response_marked input_after_def)
    qed (use t in \<open>auto simp: transform_response_st_def transform_response_def input_after_def
          split: option.splits pyobj.splits\<close>)
    with same show ?thesis by auto
  qed
qed

text \<open>So they agree on every JSON tree that is built in the empty store.\<close>

corollary transform_response_st_json:
  assumes "store_json r [] = (v, h)"
  shows "(\<exists>e. transform_response r = Inl e \<and> transform_response_st h v = (h, Inl e))
       \<or> (\<exists>h' out j. transform_response_st h v = (h', Inr out)
             \<and> transform_response r = Inr j
             \<and> denotes UNIV h' out j
             \<and> denotes UNIV h' v (input_after r))"
proof -
  from store_json_tree [OF assms] have "tree h v r 0" "0 + cells r \<le> length h"
    by simp_all
  then show ?thesis
    by (rule transform_response_st_tree)
qed


section \<open>A second call on the caller's input\<close>

text \<open>
  After the loop body an object choice has a \<^verbatim>\<open>text\<close> and a \<^verbatim>\<open>message.content\<close>, so a
  second pass leaves it as it is.
\<close>

lemma fix_choice_complete:
  "\<exists>c'. fix_choice (JObj c) = JObj c' \<and> has_key ''text'' c' \<and> message_content c' \<noteq> None"
proof (cases "message_content c")
  case (Some content)
  then show ?thesis
    by (auto simp: has_key_update message_content_update_text)
next
  case None
  show ?thesis
  proof (cases "map_of c ''text''")
    case nt: None
    with None show ?thesis
      by (simp add: has_key_update message_content_def map_of_update)
  next
    case (Some tx)
    then have ht: "has_key ''text'' c" by (simp add: has_key_def)
    show ?thesis
    proof (cases "\<exists>m. map_of c ''message'' = Some (JObj m)")
      case True
      then obtain m where m: "map_of c ''message'' = Some (JObj m)" by blast
      with None have "\<not> has_key ''content'' m"
        by (simp add: message_content_def has_key_def)
      with None Some m ht show ?thesis
        by (simp add: has_key_update message_content_def map_of_update)
    next
      case False
      with None Some have "fix_choice (JObj c)
          = JObj (AList.update ''message''
                    (JObj [(''role'', JStr ''assistant''), (''content'', tx)]) c)"
        by (auto split: option.splits json.splits)
      with ht show ?thesis
        by (simp add: has_key_update message_content_def map_of_update)
    qed
  qed
qed

lemma fix_choice_idem: "fix_choice (fix_choice c) = fix_choice c"
proof (cases c)
  case (JObj d)
  from fix_choice_complete [of d] obtain c' where c': "fix_choice (JObj d) = JObj c'"
    "has_key ''text'' c'" "message_content c' \<noteq> None"
    by blast
  then have "fix_choice (JObj c') = JObj c'"
    by auto
  with c' JObj show ?thesis by simp
qed simp_all

text \<open>The loop body brings no \<^verbatim>\<open>int\<close> into a choice that was not in it.\<close>

lemma first_error_None: "first_error es = None \<longleftrightarrow> (\<forall>e\<in>set es. e = None)"
  by (induction es rule: first_error.induct) auto

lemma dumps_error_list_map: "dumps_error_list js = map dumps_error js"
  by (induction js) auto

lemma dumps_error_entries_map: "dumps_error_entries d = map (\<lambda>kv. dumps_error (snd kv)) d"
  by (induction d) auto

lemma dumps_error_obj: "dumps_error (JObj d) = None \<longleftrightarrow> (\<forall>kv\<in>set d. dumps_error (snd kv) = None)"
  by (simp add: first_error_None dumps_error_entries_map)

lemma dumps_error_arr: "dumps_error (JArr js) = None \<longleftrightarrow> (\<forall>j\<in>set js. dumps_error j = None)"
  by (simp add: first_error_None dumps_error_list_map)

lemma dumps_error_map_of:
  "dumps_error (JObj d) = None \<Longrightarrow> map_of d k = Some v \<Longrightarrow> dumps_error v = None"
proof -
  assume ok: "dumps_error (JObj d) = None" and m: "map_of d k = Some v"
  from m have "(k, v) \<in> set d"
    by (rule map_of_SomeD)
  with ok [unfolded dumps_error_obj] have "dumps_error (snd (k, v)) = None"
    by blast
  then show ?thesis by simp
qed

lemma dumps_error_update:
  "dumps_error (JObj d) = None \<Longrightarrow> dumps_error v = None \<Longrightarrow>
     dumps_error (JObj (AList.update k v d)) = None"
  unfolding dumps_error_obj by (induction d) auto

lemma dumps_error_fix_choice:
  assumes "dumps_error c = None"
  shows "dumps_error (fix_choice c) = None"
proof (cases c)
  case (JObj d)
  note ok = assms [unfolded JObj]
  have msg: "dumps_error (JObj m) = None" if "map_of d ''message'' = Some (JObj m)" for m
    using ok that by (rule dumps_error_map_of)
  have new: "dumps_error (JObj [(''role'', JStr ''assistant''), (''content'', v)]) = None"
    if "dumps_error v = None" for v
    using that by simp
  show ?thesis
  proof (cases "message_content d")
    case (Some content)
    then obtain m where m: "map_of d ''message'' = Some (JObj m)" "map_of m ''content'' = Some content"
      by (auto simp: message_content_def split: option.splits json.splits)
    from msg [OF m(1)] m(2) have "dumps_error content = None"
      by (rule dumps_error_map_of)
    with ok have "dumps_error (JObj (AList.update ''text'' content d)) = None"
      by (rule dumps_error_update)
    with Some ok JObj show ?thesis
      by (simp del: dumps_error.simps)
  next
    case None
    show ?thesis
    proof (cases "map_of d ''text''")
      case nt: None
      have "dumps_error (JObj (AList.update ''message''
          (JObj [(''role'', JStr ''assistant''), (''content'', JStr empty_content)])
          (AList.update ''text'' (JStr empty_content) d))) = None"
        using ok by (intro dumps_error_update new) simp_all
      with None nt JObj show ?thesis
        by (simp del: dumps_error.simps)
    next
      case (Some tx)
      with ok have tx: "dumps_error tx = None"
        by (rule dumps_error_map_of)
      show ?thesis
      proof (cases "\<exists>m. map_of d ''message'' = Some (JObj m)")
        case True
        then obtain m where m: "map_of d ''message'' = Some (JObj m)" by blast
        from msg [OF m] tx have "dumps_error (JObj (AList.update ''content'' tx m)) = None"
          by (rule dumps_error_update)
        with ok have "dumps_error (JObj (AList.update ''message''
            (JObj (AList.update ''content'' tx m)) d)) = None"
          by (rule dumps_error_update)
        with None Some m ok JObj show ?thesis
          by (simp del: dumps_error.simps)
      next
        case False
        with None Some have "fix_choice (JObj d)
            = JObj (AList.update ''message''
                      (JObj [(''role'', JStr ''assistant''), (''content'', tx)]) d)"
          by (auto split: option.splits json.splits)
        moreover have "dumps_error (JObj (AList.update ''message''
            (JObj [(''role'', JStr ''assistant''), (''content'', tx)]) d)) = None"
          using ok tx by (intro dumps_error_update new)
        ultimately show ?thesis
          using JObj by (simp del: dumps_error.simps)
      qed
    qed
  qed
qed (use assms in simp_all)

text \<open>
  A second call on the caller's own input, whose choices the first call has written
  into, has the outcome of the first call.
\<close>

lemma transform_response_input_after: "transform_response (input_after r) = transform_response r"
proof (cases "\<exists>d cs. r = JObj d \<and> \<not> has_key sentinel d \<and> dumps_error r = None
    \<and> map_of d ''choices'' = Some (JArr cs)")
  case False
  then have "input_after r = r"
    by (auto simp: input_after_def split: json.splits option.splits)
  then show ?thesis by simp
next
  case True
  then obtain d cs where r: "r = JObj d" and nm: "\<not> has_key sentinel d"
    and ok: "dumps_error (JObj d) = None"
    and c: "map_of d ''choices'' = Some (JArr cs)"
    by blast
  let ?X = "JArr (map fix_choice cs)"
  let ?d' = "AList.update ''choices'' ?X d"
  from r nm ok c have ia: "input_after r = JObj ?d'"
    by (simp add: input_after_def)
  have nm': "\<not> has_key sentinel ?d'"
    using nm by (simp add: has_key_update sentinel_not_choices)
  have c': "map_of ?d' ''choices'' = Some ?X"
    by (simp add: map_of_update)
  from ok c have "dumps_error (JArr cs) = None"
    by (rule dumps_error_map_of)
  then have "dumps_error ?X = None"
    unfolding dumps_error_arr by (simp add: dumps_error_fix_choice)
  with ok have ok': "dumps_error (JObj ?d') = None"
    by (rule dumps_error_update)
  have "transform_response (JObj ?d')
      = Inr (JObj (AList.update ''choices'' (JArr (map fix_choice (map fix_choice cs)))
               (AList.update sentinel (JBool True) ?d')))"
    using nm' ok' c' by (rule transform_response_list)
  also have "map fix_choice (map fix_choice cs) = map fix_choice cs"
    by (simp add: fix_choice_idem)
  also have "AList.update sentinel (JBool True) ?d'
      = AList.update ''choices'' ?X (AList.update sentinel (JBool True) d)"
    using c by (intro update_swap [symmetric]) (simp_all add: sentinel_not_choices)
  also have "AList.update ''choices'' ?X (AList.update ''choices'' ?X (AList.update sentinel (JBool True) d))
      = AList.update ''choices'' ?X (AList.update sentinel (JBool True) d)"
    by (simp add: update_last)
  also have "Inr (JObj (AList.update ''choices'' ?X (AList.update sentinel (JBool True) d)))
      = transform_response (JObj d)"
    using nm ok c by (rule transform_response_list [symmetric])
  finally show ?thesis
    using ia r by simp
qed

end
